theory Spec2Isabelle
  imports Main "HOL-Library.AList" "HOL-Library.Sublist"
begin

section \<open>JavaScript values and the object heap\<close>

text \<open>
  A JavaScript value is a primitive or a reference to an object. Objects live in a heap,
  a list indexed by address; allocation appends, so an address below the length of an
  earlier heap names an object that existed then. Numbers are modelled as integers (the
  code only counts with them).
\<close>

datatype jsval = JUndefined | JNull | JBool bool | JNum int | JStr string | JRef nat

datatype jsobj = JArray "jsval list" | JObject "(string \<times> jsval) list"

type_synonym heap = "jsobj list"

datatype js_error = TypeError | RangeError | HostError string

fun truthy :: "jsval \<Rightarrow> bool" where
  "truthy JUndefined = False"
| "truthy JNull = False"
| "truthy (JBool b) = b"
| "truthy (JNum n) = (n \<noteq> 0)"
| "truthy (JStr s) = (s \<noteq> [])"
| "truthy (JRef a) = True"

fun nullish :: "jsval \<Rightarrow> bool" where
  "nullish JUndefined = True"
| "nullish JNull = True"
| "nullish v = False"

text \<open>\<open>a ?? b\<close>\<close>

definition nullish_coalesce :: "jsval \<Rightarrow> jsval \<Rightarrow> jsval" where
  "nullish_coalesce a b = (if nullish a then b else a)"

text \<open>\<open>a || b\<close> and \<open>a && b\<close> on values (both operands already evaluated).\<close>

definition js_or :: "jsval \<Rightarrow> jsval \<Rightarrow> jsval" where
  "js_or a b = (if truthy a then a else b)"

definition js_and :: "jsval \<Rightarrow> jsval \<Rightarrow> jsval" where
  "js_and a b = (if truthy a then b else a)"

text \<open>
  Reading the property \<open>k\<close> of a value that is neither \<open>undefined\<close> nor \<open>null\<close>:
  an absent property reads as \<open>undefined\<close>. Arrays answer \<open>length\<close>; their elements
  are read with \<open>get_index\<close>.
\<close>

fun get_prop :: "heap \<Rightarrow> jsval \<Rightarrow> string \<Rightarrow> jsval" where
  "get_prop h (JRef a) k =
     (if a < length h then
        (case h ! a of
           JObject ps \<Rightarrow> (case map_of ps k of Some v \<Rightarrow> v | None \<Rightarrow> JUndefined)
         | JArray xs \<Rightarrow> (if k = ''length'' then JNum (int (length xs)) else JUndefined))
      else JUndefined)"
| "get_prop h (JStr s) k = (if k = ''length'' then JNum (int (length s)) else JUndefined)"
| "get_prop h v k = JUndefined"

text \<open>\<open>v.k\<close>: throws a TypeError on \<open>undefined\<close> and \<open>null\<close>.\<close>

definition member :: "heap \<Rightarrow> jsval \<Rightarrow> string \<Rightarrow> js_error + jsval" where
  "member h v k = (if nullish v then Inl TypeError else Inr (get_prop h v k))"

text \<open>\<open>v?.k\<close>: \<open>undefined\<close> on \<open>undefined\<close> and \<open>null\<close>, never throws.\<close>

definition opt_member :: "heap \<Rightarrow> jsval \<Rightarrow> string \<Rightarrow> jsval" where
  "opt_member h v k = (if nullish v then JUndefined else get_prop h v k)"

subsection \<open>Objects in the heap\<close>

text \<open>\<open>typeof v === "object" && v !== null\<close>: the value refers to an object of the heap.\<close>

fun is_object :: "heap \<Rightarrow> jsval \<Rightarrow> bool" where
  "is_object h (JRef a) = (a < length h)"
| "is_object h v = False"

text \<open>The value refers to a plain object (not an array).\<close>

fun is_plain :: "heap \<Rightarrow> jsval \<Rightarrow> bool" where
  "is_plain h (JRef a) = (a < length h \<and> (case h ! a of JObject ps \<Rightarrow> True | JArray xs \<Rightarrow> False))"
| "is_plain h v = False"

text \<open>The decimal name of an array index, as a property key.\<close>

fun index_key :: "nat \<Rightarrow> string" where
  "index_key n =
     (if n < 10 then [''0123456789'' ! n]
      else index_key (n div 10) @ [''0123456789'' ! (n mod 10)])"

declare index_key.simps [simp del]

text \<open>
  \<open>Object.keys(v)\<close> of an object: the property names in insertion order (a name
  counts once), the indices for an array.
\<close>

fun own_keys :: "heap \<Rightarrow> jsval \<Rightarrow> string list" where
  "own_keys h (JRef a) =
     (if a < length h then
        (case h ! a of
           JObject ps \<Rightarrow> remdups (map fst ps)
         | JArray xs \<Rightarrow> map index_key [0..<length xs])
      else [])"
| "own_keys h v = []"

text \<open>
  \<open>v[i]\<close> for a numeric index on a value that is neither \<open>undefined\<close> nor \<open>null\<close>:
  an element of an array, a character of a string, the property named by the index of
  an object.
\<close>

fun get_index :: "heap \<Rightarrow> jsval \<Rightarrow> nat \<Rightarrow> jsval" where
  "get_index h (JRef a) i =
     (if a < length h then
        (case h ! a of
           JArray xs \<Rightarrow> (if i < length xs then xs ! i else JUndefined)
         | JObject ps \<Rightarrow> (case map_of ps (index_key i) of Some v \<Rightarrow> v | None \<Rightarrow> JUndefined))
      else JUndefined)"
| "get_index h (JStr s) i = (if i < length s then JStr [s ! i] else JUndefined)"
| "get_index h v i = JUndefined"

definition index_member :: "heap \<Rightarrow> jsval \<Rightarrow> nat \<Rightarrow> js_error + jsval" where
  "index_member h v i = (if nullish v then Inl TypeError else Inr (get_index h v i))"

text \<open>\<open>k in v\<close>: a TypeError unless \<open>v\<close> is an object.\<close>

fun has_property :: "heap \<Rightarrow> string \<Rightarrow> jsval \<Rightarrow> js_error + bool" where
  "has_property h k (JRef a) =
     (if a < length h then
        (case h ! a of
           JObject ps \<Rightarrow> Inr (k \<in> fst ` set ps)
         | JArray xs \<Rightarrow> Inr (k = ''length'' \<or> k \<in> set (map index_key [0..<length xs])))
      else Inr False)"
| "has_property h k v = Inl TypeError"

text \<open>Allocation of a new object; its address is the old length of the heap.\<close>

definition alloc :: "heap \<Rightarrow> jsobj \<Rightarrow> heap \<times> jsval" where
  "alloc h ob = (h @ [ob], JRef (length h))"

text \<open>
  Writing the property \<open>k\<close> of the object at address \<open>a\<close>: an existing property
  keeps its place, a new one goes last. Named properties of arrays are outside the model.
\<close>

definition set_prop :: "heap \<Rightarrow> nat \<Rightarrow> string \<Rightarrow> jsval \<Rightarrow> heap" where
  "set_prop h a k v =
     (if a < length h then
        (case h ! a of
           JObject ps \<Rightarrow> h[a := JObject (AList.update k v ps)]
         | JArray xs \<Rightarrow> h)
      else h)"

text \<open>\<open>target.k = v\<close> in strict code: a TypeError unless \<open>target\<close> is an object.\<close>

fun assign_prop :: "heap \<Rightarrow> jsval \<Rightarrow> string \<Rightarrow> jsval \<Rightarrow> js_error + heap" where
  "assign_prop h (JRef a) k v = Inr (set_prop h a k v)"
| "assign_prop h target k v = Inl TypeError"

subsection \<open>Host helpers\<close>

text \<open>
  Threading the heap through a list of values, left to right, stopping at the first
  error: the shape of \<open>original.map(deepClone)\<close>.
\<close>

fun map_heap ::
  "(heap \<Rightarrow> jsval \<Rightarrow> js_error + heap \<times> jsval) \<Rightarrow> heap \<Rightarrow> jsval list \<Rightarrow> js_error + heap \<times> jsval list"
where
  "map_heap f h [] = Inr (h, [])"
| "map_heap f h (x # xs) =
     (case f h x of
        Inl e \<Rightarrow> Inl e
      | Inr (h1, y) \<Rightarrow>
          (case map_heap f h1 xs of
             Inl e \<Rightarrow> Inl e
           | Inr (h2, ys) \<Rightarrow> Inr (h2, y # ys)))"

text \<open>
  Modelled from the spec: \<open>deepClone\<close> is a helper of the host application
  (\<open>foundry.utils.deepClone\<close>), not part of the repository; the spec says that it
  deep-copies a field. The model copies primitives as they are and rebuilds arrays and
  plain objects, children first, in new heap cells. The first argument bounds the
  nesting depth (the call stack): a structure nested deeper, a cyclic one in particular,
  ends in a RangeError. Class instances of the host are outside the model.
\<close>

primrec deepClone :: "nat \<Rightarrow> heap \<Rightarrow> jsval \<Rightarrow> js_error + heap \<times> jsval" where
  "deepClone 0 = (\<lambda>h v. Inl RangeError)"
| "deepClone (Suc d) = (\<lambda>h v.
     case v of
       JRef a \<Rightarrow>
         (if a < length h then
            (case h ! a of
               JArray xs \<Rightarrow>
                 (case map_heap (deepClone d) h xs of
                    Inl e \<Rightarrow> Inl e
                  | Inr (h1, ys) \<Rightarrow> Inr (alloc h1 (JArray ys)))
             | JObject ps \<Rightarrow>
                 (case map_heap (deepClone d) h (map snd ps) of
                    Inl e \<Rightarrow> Inl e
                  | Inr (h1, ys) \<Rightarrow> Inr (alloc h1 (JObject (zip (map fst ps) ys)))))
          else Inr (h, v))
     | _ \<Rightarrow> Inr (h, v))"

text \<open>
  Modelled from the spec: \<open>foundry.utils.duplicate\<close>, the host's copy through JSON,
  not part of the repository. The constructor applies it to \<open>defaultParams\<close> only, where
  it is a deep copy.
\<close>

definition duplicate :: "nat \<Rightarrow> heap \<Rightarrow> jsval \<Rightarrow> js_error + heap \<times> jsval" where
  "duplicate d h v = deepClone d h v"

text \<open>
  Modelled from the spec: \<open>foundry.utils.mergeObject(original, other, {recursive})\<close>,
  a helper of the host application, not part of the repository. The spec describes it
  as merging the caller's keys over the defaults, top-level keys only when called with
  \<open>recursive: false\<close>. The model merges in place: for every key of \<open>other\<close>, in order,
  \<open>original[k] = other[k]\<close>, except that with \<open>recursive\<close> two plain objects are
  merged key by key. \<open>other\<close> defaults to an empty object when it is falsy; the host
  rejects an \<open>original\<close> or \<open>other\<close> that is not an object. The call sites of the
  repository pass a new plain object as \<open>original\<close>. The first argument bounds the
  nesting depth, as for \<open>deepClone\<close>.
\<close>

fun merge_keys ::
  "(bool \<Rightarrow> heap \<Rightarrow> jsval \<Rightarrow> jsval \<Rightarrow> js_error + heap) \<Rightarrow> bool \<Rightarrow> heap \<Rightarrow> nat \<Rightarrow> jsval \<Rightarrow> string list
     \<Rightarrow> js_error + heap"
where
  "merge_keys M recursive h a other [] = Inr h"
| "merge_keys M recursive h a other (k # ks) =
     (let v = get_prop h other k;
          x = get_prop h (JRef a) k
      in case (if recursive \<and> is_plain h v \<and> is_plain h x
               then M recursive h x v
               else Inr (set_prop h a k v)) of
           Inl e \<Rightarrow> Inl e
         | Inr h1 \<Rightarrow> merge_keys M recursive h1 a other ks)"

primrec mergeObject :: "nat \<Rightarrow> bool \<Rightarrow> heap \<Rightarrow> jsval \<Rightarrow> jsval \<Rightarrow> js_error + heap" where
  "mergeObject 0 = (\<lambda>recursive h original other. Inl RangeError)"
| "mergeObject (Suc d) = (\<lambda>recursive h original other.
     case original of
       JRef a \<Rightarrow>
         (if is_plain h original \<and> (\<not> truthy other \<or> is_object h other)
          then merge_keys (mergeObject d) recursive h a other (own_keys h other)
          else Inl (HostError ''One of original or other are not Objects!''))
     | _ \<Rightarrow> Inl (HostError ''One of original or other are not Objects!''))"

subsection \<open>The content of a value\<close>

text \<open>
  What a value looks like when the heap is read through: a tree without addresses. Two
  values with the same tree are equal as data, whichever objects hold them.
\<close>

datatype jstree =
    TUndefined | TNull | TBool bool | TNum int | TStr string
  | TArray "jstree list" | TObject "(string \<times> jstree) list"

text \<open>
  Reading a value through the heap, at most \<open>d\<close> objects deep; \<open>None\<close> when the
  structure is deeper (or cyclic) or refers outside the heap.
\<close>

primrec tree_of :: "nat \<Rightarrow> heap \<Rightarrow> jsval \<Rightarrow> jstree option" where
  "tree_of 0 = (\<lambda>h v. None)"
| "tree_of (Suc d) = (\<lambda>h v.
     case v of
       JUndefined \<Rightarrow> Some TUndefined
     | JNull \<Rightarrow> Some TNull
     | JBool b \<Rightarrow> Some (TBool b)
     | JNum n \<Rightarrow> Some (TNum n)
     | JStr s \<Rightarrow> Some (TStr s)
     | JRef a \<Rightarrow>
         (if a < length h then
            (case h ! a of
               JArray xs \<Rightarrow> map_option TArray (those (map (tree_of d h) xs))
             | JObject ps \<Rightarrow>
                 map_option (\<lambda>ts. TObject (zip (map fst ps) ts))
                   (those (map (tree_of d h) (map snd ps))))
          else None))"

fun tree_truthy :: "jstree \<Rightarrow> bool" where
  "tree_truthy TUndefined = False"
| "tree_truthy TNull = False"
| "tree_truthy (TBool b) = b"
| "tree_truthy (TNum n) = (n \<noteq> 0)"
| "tree_truthy (TStr s) = (s \<noteq> [])"
| "tree_truthy t = True"

fun tree_primitive :: "jstree \<Rightarrow> bool" where
  "tree_primitive (TArray ts) = False"
| "tree_primitive (TObject ps) = False"
| "tree_primitive t = True"

text \<open>The addresses a cell refers to, and the addresses reachable from a value.\<close>

fun refs_of :: "jsobj \<Rightarrow> nat set" where
  "refs_of (JArray xs) = {a. JRef a \<in> set xs}"
| "refs_of (JObject ps) = {a. JRef a \<in> snd ` set ps}"

inductive_set reach :: "heap \<Rightarrow> jsval \<Rightarrow> nat set" for h :: heap and v :: jsval where
  start: "v = JRef a \<Longrightarrow> a \<in> reach h v"
| step: "a \<in> reach h v \<Longrightarrow> a < length h \<Longrightarrow> r \<in> refs_of (h ! a) \<Longrightarrow> r \<in> reach h v"

text \<open>
  A value is new with respect to the first \<open>n\<close> cells when it does not refer to one of
  them; the cells from \<open>n\<close> on are closed when they refer to no cell below \<open>n\<close>.
\<close>

definition val_fresh :: "nat \<Rightarrow> jsval \<Rightarrow> bool" where
  "val_fresh n v \<longleftrightarrow> (\<forall>a. v = JRef a \<longrightarrow> n \<le> a)"

definition region_closed :: "nat \<Rightarrow> heap \<Rightarrow> bool" where
  "region_closed n h \<longleftrightarrow> (\<forall>a. n \<le> a \<and> a < length h \<longrightarrow> (\<forall>r \<in> refs_of (h ! a). n \<le> r))"

text \<open>
  A heap is closed when every reference stored in it names one of its objects, as in any
  state of a running program.
\<close>

fun val_in :: "nat \<Rightarrow> jsval \<Rightarrow> bool" where
  "val_in n (JRef a) = (a < n)"
| "val_in n v = True"

fun cell_closed :: "nat \<Rightarrow> jsobj \<Rightarrow> bool" where
  "cell_closed n (JArray xs) = list_all (val_in n) xs"
| "cell_closed n (JObject ps) = list_all (\<lambda>p. val_in n (snd p)) ps"

definition heap_closed :: "heap \<Rightarrow> bool" where
  "heap_closed h = list_all (cell_closed (length h)) h"

text \<open>
  A value has the content \<open>t\<close> by the cells \<open>ext\<close> alone, when these sit at address
  \<open>n\<close>: whatever the cells before and after them.
\<close>

definition local_tree :: "nat \<Rightarrow> nat \<Rightarrow> jsobj list \<Rightarrow> jsval \<Rightarrow> jstree \<Rightarrow> bool" where
  "local_tree d n ext v t \<longleftrightarrow>
     (\<forall>hx sfx. length hx = n \<longrightarrow> tree_of d (hx @ ext @ sfx) v = Some t)"

section \<open>The QuickRoll card builder\<close>

text \<open>
  The class \<open>QuickRoll\<close> as a record of its instance fields. \<open>qr_fields\<close> (the instance field \<open>fields\<close>; the name is taken by the record package) and
  \<open>templates\<close> are the two arrays the instance owns; their elements are values (field
  descriptors are references to arrays in the heap).
\<close>

record QuickRoll =
  currentId :: int
  item :: jsval
  itemId :: jsval
  actor :: jsval
  actorId :: jsval
  tokenId :: jsval
  params :: jsval
  qr_fields :: "jsval list"
  templates :: "jsval list"
  properties :: "jsval list"
  isCrit :: jsval
  isMultiroll :: jsval
  processed :: bool

text \<open>The metadata object handed to the render collaborator with every field.\<close>

record metadata =
  md_id :: int
  md_item :: jsval
  md_actor :: jsval
  md_slotLevel :: jsval
  md_isCrit :: jsval
  md_isMultiroll :: jsval

text \<open>The argument of \<open>RenderUtility.renderFullCard\<close>.\<close>

record card =
  card_item :: jsval
  card_actor :: jsval
  card_tokenId :: jsval
  card_isCritical :: jsval
  card_properties :: "jsval list"
  card_templates :: "jsval list"

datatype hook = HOOK_CHAT_MESSAGE | HOOK_RENDER

text \<open>
  The collaborators of \<open>_render\<close> are not part of the repository's code under study:
  \<open>RenderUtility.renderFromField\<close> may fail (a rejected promise propagates out of
  \<open>_render\<close>), \<open>RenderUtility.renderFullCard\<close> returns the card's html. Every call to a
  collaborator is recorded in a log, in the order the calls are made.
\<close>

record renderer =
  renderFromField :: "jsval \<Rightarrow> metadata \<Rightarrow> js_error + jsval"
  renderFullCard :: "card \<Rightarrow> jsval"

datatype render_call =
    RenderFromField jsval metadata
  | HooksCallAll hook
  | RenderFullCard card

text \<open>
  The body of the loop \<open>for (const field of this.fields)\<close> of \<open>_render\<close>, as a
  recursion over the fields still to visit. The metadata literal is evaluated left to
  right: \<open>this._currentId++\<close> yields the old id and increments before
  \<open>this.params.slotLevel\<close> is read.
\<close>

fun render_loop ::
  "renderer \<Rightarrow> heap \<Rightarrow> jsval list \<Rightarrow> QuickRoll \<Rightarrow> QuickRoll \<times> render_call list \<times> js_error option"
where
  "render_loop R h [] q = (q, [], None)"
| "render_loop R h (field # rest) q =
     (let i = currentId q;
          q1 = q\<lparr>currentId := currentId q + 1\<rparr>
      in case member h (params q1) ''slotLevel'' of
           Inl e \<Rightarrow> (q1, [], Some e)
         | Inr slot \<Rightarrow>
             (let md = \<lparr>md_id = i, md_item = item q1, md_actor = actor q1,
                        md_slotLevel = slot, md_isCrit = isCrit q1,
                        md_isMultiroll = isMultiroll q1\<rparr>
              in case renderFromField R field md of
                   Inl e \<Rightarrow> (q1, [RenderFromField field md], Some e)
                 | Inr render \<Rightarrow>
                     (let q2 = q1\<lparr>templates := templates q1 @ [render]\<rparr>;
                          (q3, calls, err) = render_loop R h rest q2
                      in (q3, RenderFromField field md # calls, err))))"

definition full_card :: "QuickRoll \<Rightarrow> card" where
  "full_card q =
     \<lparr>card_item = item q, card_actor = actor q, card_tokenId = tokenId q,
      card_isCritical = isCrit q, card_properties = properties q,
      card_templates = templates q\<rparr>"

text \<open>\<open>QuickRoll._render\<close>: the instance after the call, the collaborator calls made, and
  the html returned or the error thrown.\<close>

definition render :: "renderer \<Rightarrow> heap \<Rightarrow> QuickRoll \<Rightarrow> QuickRoll \<times> render_call list \<times> (js_error + jsval)" where
  "render R h q =
     (let (q1, calls, err) =
            (if \<not> processed q then
               (case render_loop R h (qr_fields q) q of
                  (q', cs, None) \<Rightarrow> (q'\<lparr>processed := True\<rparr>, cs, None)
                | (q', cs, Some e) \<Rightarrow> (q', cs, Some e))
             else (q, [], None))
      in case err of
           Some e \<Rightarrow> (q1, calls, Inl e)
         | None \<Rightarrow>
             (q1, calls @ [HooksCallAll HOOK_RENDER, RenderFullCard (full_card q1)],
              Inr (renderFullCard R (full_card q1))))"

text \<open>The calls to the per-field render collaborator in a log, in order.\<close>

fun field_renders :: "render_call list \<Rightarrow> (jsval \<times> metadata) list" where
  "field_renders [] = []"
| "field_renders (RenderFromField f md # cs) = (f, md) # field_renders cs"
| "field_renders (c # cs) = field_renders cs"

fun hook_calls :: "render_call list \<Rightarrow> hook list" where
  "hook_calls [] = []"
| "hook_calls (HooksCallAll k # cs) = k # hook_calls cs"
| "hook_calls (c # cs) = hook_calls cs"

text \<open>The metadata \<open>_render\<close> builds for a field when the id counter stands at \<open>i\<close>.\<close>

definition field_metadata :: "heap \<Rightarrow> QuickRoll \<Rightarrow> int \<Rightarrow> metadata" where
  "field_metadata h q i =
     \<lparr>md_id = i, md_item = item q, md_actor = actor q,
      md_slotLevel = get_prop h (params q) ''slotLevel'', md_isCrit = isCrit q,
      md_isMultiroll = isMultiroll q\<rparr>"

text \<open>The two updates of the loop body: \<open>this._currentId++\<close> and
  \<open>this.templates.push(render)\<close>.\<close>

definition next_id :: "QuickRoll \<Rightarrow> QuickRoll" where
  "next_id q = q\<lparr>currentId := currentId q + 1\<rparr>"

definition push_template :: "jsval \<Rightarrow> QuickRoll \<Rightarrow> QuickRoll" where
  "push_template r q = q\<lparr>templates := templates q @ [r]\<rparr>"

text \<open>The (field, metadata) pairs of a full pass over \<open>fs\<close> starting with the counter at \<open>c\<close>.\<close>

fun expected_renders :: "heap \<Rightarrow> QuickRoll \<Rightarrow> int \<Rightarrow> jsval list \<Rightarrow> (jsval \<times> metadata) list" where
  "expected_renders h q c [] = []"
| "expected_renders h q c (f # fs) = (f, field_metadata h q c) # expected_renders h q (c + 1) fs"

subsection \<open>Construction\<close>

text \<open>
  The literal \<open>defaultParams\<close> of the module; \<open>u\<close> is the reference to its
  \<open>useCharge\<close> object.
\<close>

definition defaultParams_props :: "jsval \<Rightarrow> (string \<times> jsval) list" where
  "defaultParams_props u =
     [(''label'', JStr ''''), (''forceCrit'', JBool False), (''forceMultiroll'', JBool False),
      (''preset'', JNull), (''properties'', JBool True), (''slotLevel'', JNull),
      (''useCharge'', u), (''placeTemplate'', JBool False), (''hasAdvantage'', JBool False),
      (''hasDisadvantage'', JBool False), (''consume'', JBool True), (''infoOnly'', JBool False)]"

text \<open>The setters \<open>set item\<close> and \<open>set actor\<close>.\<close>

definition set_item :: "heap \<Rightarrow> jsval \<Rightarrow> QuickRoll \<Rightarrow> QuickRoll" where
  "set_item h it q = q\<lparr>item := it, itemId := opt_member h it ''id''\<rparr>"

definition set_actor :: "heap \<Rightarrow> jsval \<Rightarrow> QuickRoll \<Rightarrow> QuickRoll" where
  "set_actor h ac q =
     q\<lparr>actor := ac, actorId := opt_member h ac ''id'',
       tokenId := (if truthy (opt_member h ac ''token'')
                   then get_prop h (get_prop h ac ''token'') ''uuid'' else JNull)\<rparr>"

text \<open>An instance before the constructor body runs: \<open>_currentId = -1\<close>, nothing else set.\<close>

definition blank_QuickRoll :: QuickRoll where
  "blank_QuickRoll =
     \<lparr>currentId = - 1, item = JUndefined, itemId = JUndefined, actor = JUndefined,
      actorId = JUndefined, tokenId = JUndefined, params = JUndefined, qr_fields = [],
      templates = [], properties = [], isCrit = JUndefined, isMultiroll = JUndefined,
      processed = False\<rparr>"

text \<open>
  The constructor. \<open>CoreUtility.resolveActorOrItem\<close> is a parameter returning the pair
  (item, actor); \<open>defaultParams\<close> is the module variable; \<open>flds\<close> is \<open>None\<close> when the
  caller passes no field sequence. After a successful merge \<open>this.params\<close> is an object,
  so reading its properties cannot throw. \<open>console.log\<close> is left out.
\<close>

definition new_QuickRoll ::
  "nat \<Rightarrow> (jsval \<Rightarrow> jsval \<times> jsval) \<Rightarrow> jsval \<Rightarrow> heap \<Rightarrow> jsval \<Rightarrow> jsval \<Rightarrow> jsval list option
     \<Rightarrow> js_error + heap \<times> QuickRoll"
where
  "new_QuickRoll d resolveActorOrItem defaultParams h origin prms flds =
     (let (it, ac) = (if truthy origin then resolveActorOrItem origin else (JUndefined, JUndefined));
          q1 = (if truthy it then set_item h it blank_QuickRoll else blank_QuickRoll);
          q2 = (if truthy ac then set_actor h ac q1 else q1)
      in case duplicate d h defaultParams of
           Inl e \<Rightarrow> Inl e
         | Inr (h1, dup) \<Rightarrow>
             (let (h2, other) = (if truthy prms then (h1, prms) else alloc h1 (JObject []))
              in case mergeObject d True h2 dup other of
                   Inl e \<Rightarrow> Inl e
                 | Inr h3 \<Rightarrow>
                     Inr (h3,
                       q2\<lparr>params := dup,
                          qr_fields := (case flds of None \<Rightarrow> [] | Some fs \<Rightarrow> fs),
                          templates := [], properties := [],
                          isCrit := js_or (get_prop h3 dup ''forceCrit'') (JBool False),
                          isMultiroll :=
                            js_or (js_or (get_prop h3 dup ''forceMultiroll'')
                                         (get_prop h3 dup ''hasAdvantage''))
                                  (get_prop h3 dup ''hasDisadvantage''),
                          processed := False\<rparr>)))"

text \<open>
  The module variable \<open>defaultParams\<close> refers to the object at \<open>dp\<close>, whose
  \<open>useCharge\<close> is the empty object at \<open>du\<close>: the state the module's top level
  leaves behind.
\<close>

definition defaults_at :: "heap \<Rightarrow> nat \<Rightarrow> nat \<Rightarrow> bool" where
  "defaults_at h dp du \<longleftrightarrow>
     dp < length h \<and> du < length h \<and>
     h ! dp = JObject (defaultParams_props (JRef du)) \<and> h ! du = JObject []"

text \<open>
  A key of the caller's parameters replaces the default, except a plain object given for
  \<open>useCharge\<close>, which is merged into the copy of the default's empty object.
\<close>

definition overrides :: "heap \<Rightarrow> jsval \<Rightarrow> string \<Rightarrow> bool" where
  "overrides h prms k \<longleftrightarrow>
     k \<in> set (own_keys h prms) \<and>
     \<not> (k = ''useCharge'' \<and> is_plain h (get_prop h prms ''useCharge''))"

subsection \<open>Serialising into flags\<close>

record rsr5e_flags =
  flag_version :: jsval
  flag_actorId :: jsval
  flag_itemId :: jsval
  flag_tokenId :: jsval
  flag_isCrit :: jsval
  flag_properties :: "jsval list"
  flag_params :: jsval
  flag_fields :: "jsval list"

record flags =
  rsr5e :: rsr5e_flags
  core_canPopout :: bool

text \<open>
  The test \<open>field[1] && 'formula' in field[1] && field[1].formula?.formula\<close>: whether it
  is truthy, or the TypeError it throws (\<open>field\<close> is \<open>undefined\<close> or \<open>null\<close>, or
  \<open>field[1]\<close> is a truthy primitive).
\<close>

definition flatten_test :: "heap \<Rightarrow> jsval \<Rightarrow> js_error + bool" where
  "flatten_test h field =
     (case index_member h field 1 of
        Inl e \<Rightarrow> Inl e
      | Inr payload \<Rightarrow>
          if \<not> truthy payload then Inr False
          else
            (case has_property h ''formula'' payload of
               Inl e \<Rightarrow> Inl e
             | Inr present \<Rightarrow>
                 Inr (present \<and>
                      truthy (opt_member h (get_prop h payload ''formula'') ''formula''))))"

text \<open>
  The callback of \<open>this.fields.map\<close> in \<open>_getFlags\<close>. The test reads the original
  field, the assignment writes the clone. Where the test has passed, \<open>field[1]\<close> and
  \<open>field[1].formula\<close> are neither \<open>undefined\<close> nor \<open>null\<close>, so the right-hand side
  \<open>field[1].formula.formula\<close> cannot throw.
\<close>

definition flag_field :: "nat \<Rightarrow> heap \<Rightarrow> jsval \<Rightarrow> js_error + heap \<times> jsval" where
  "flag_field d h field =
     (case deepClone d h field of
        Inl e \<Rightarrow> Inl e
      | Inr (h1, newField) \<Rightarrow>
          (case flatten_test h1 field of
             Inl e \<Rightarrow> Inl e
           | Inr flatten \<Rightarrow>
               if \<not> flatten then Inr (h1, newField)
               else
                 (case index_member h1 newField 1 of
                    Inl e \<Rightarrow> Inl e
                  | Inr target \<Rightarrow>
                      (case assign_prop h1 target ''formula''
                              (get_prop h1 (get_prop h1 (get_index h1 field 1) ''formula'')
                                 ''formula'') of
                         Inl e \<Rightarrow> Inl e
                       | Inr h2 \<Rightarrow> Inr (h2, newField)))))"

text \<open>\<open>_getFlags\<close>; \<open>CoreUtility.getVersion()\<close> is the parameter \<open>version\<close>.\<close>

definition getFlags :: "nat \<Rightarrow> jsval \<Rightarrow> heap \<Rightarrow> QuickRoll \<Rightarrow> js_error + heap \<times> flags" where
  "getFlags d version h q =
     (case map_heap (flag_field d) h (qr_fields q) of
        Inl e \<Rightarrow> Inl e
      | Inr (h', fs) \<Rightarrow>
          Inr (h',
            \<lparr>rsr5e = \<lparr>flag_version = version, flag_actorId = actorId q, flag_itemId = itemId q,
                       flag_tokenId = tokenId q, flag_isCrit = isCrit q,
                       flag_properties = properties q, flag_params = params q,
                       flag_fields = fs\<rparr>,
             core_canPopout = True\<rparr>))"

subsection \<open>Flattening, on the content of a field\<close>

text \<open>
  The \<open>formula\<close> of the \<open>formula\<close> object in the second element of a field, when the
  field has that shape; and the field with the \<open>formula\<close> of its second element replaced.
\<close>

fun nested_formula :: "jstree \<Rightarrow> jstree option" where
  "nested_formula (TArray (k # TObject ps # rest)) =
     (case map_of ps ''formula'' of
        Some (TObject qs) \<Rightarrow> map_of qs ''formula''
      | _ \<Rightarrow> None)"
| "nested_formula t = None"

fun with_formula :: "jstree \<Rightarrow> jstree \<Rightarrow> jstree" where
  "with_formula v (TArray (k # TObject ps # rest)) =
     TArray (k # TObject (AList.update ''formula'' v ps) # rest)"
| "with_formula v t = t"

text \<open>
  The specification of the flag serialisation, in its words: where the second element of
  a field contains a \<open>formula\<close> object with its own \<open>formula\<close> string, that nested object is
  replaced by the plain string; any other field is left as it is.
\<close>

definition flattened_spec :: "jstree \<Rightarrow> jstree" where
  "flattened_spec t =
     (case nested_formula t of
        Some (TStr s) \<Rightarrow> with_formula (TStr s) t
      | _ \<Rightarrow> t)"

text \<open>
  What the callback of \<open>_getFlags\<close> does to the content, read off its test
  \<open>field[1].formula?.formula\<close>: the test is truthiness, so the nested formula replaces the
  \<open>formula\<close> object whenever it is truthy, a string or not, and an empty string does not.
\<close>

definition flattened :: "jstree \<Rightarrow> jstree" where
  "flattened t =
     (case nested_formula t of
        Some v \<Rightarrow> if tree_truthy v then with_formula v t else t
      | None \<Rightarrow> t)"

text \<open>
  The fields that \<open>_getFlags\<close> serialises into copies: an array \<open>[kind, payload, ...]\<close>
  whose payload is absent, falsy, or an object (or array), and whose nested formula, if
  there is one, is a primitive. On a payload that is a truthy primitive the test
  \<open>'formula' in field[1]\<close> throws a TypeError; a nested formula that is an object is
  assigned to the copy as it is, the very object of the original field.
\<close>

fun payload_ok :: "jstree \<Rightarrow> bool" where
  "payload_ok (TObject ps) = True"
| "payload_ok (TArray ts) = True"
| "payload_ok t = (\<not> tree_truthy t)"

fun roll_field :: "jstree \<Rightarrow> bool" where
  "roll_field (TArray ts) =
     ((length ts < 2 \<or> payload_ok (ts ! 1)) \<and>
      (case nested_formula (TArray ts) of Some v \<Rightarrow> tree_primitive v | None \<Rightarrow> True))"
| "roll_field t = False"

section \<open>Patching the host's roll methods\<close>

subsection \<open>The patch registrar\<close>

text \<open>
  The settings the registrar consults (\<open>SETTING_NAMES\<close>), the replacement functions it
  installs, and the two registration modes of \<open>libWrapper\<close>.
\<close>

datatype setting_name = QUICK_SKILL_ENABLED | QUICK_ABILITY_ENABLED | QUICK_ITEM_ENABLED

datatype patch_fn = ActorRollSkill | ActorRollAbilityTest | ActorRollAbilitySave | ItemUse | OnChangeTab

datatype wrapper_type = MIXED | OVERRIDE

record registration =
  reg_module :: string
  reg_target :: string
  reg_fn :: patch_fn
  reg_type :: wrapper_type

datatype patch_effect = Log string | Register registration

definition actorPrototype :: string where
  "actorPrototype = ''CONFIG.Actor.documentClass.prototype''"

definition itemPrototype :: string where
  "itemPrototype = ''CONFIG.Item.documentClass.prototype''"

definition itemSheetPrototype :: string where
  "itemSheetPrototype = ''ItemSheet.prototype''"

text \<open>
  The three static methods of \<open>PatchingUtility\<close>. \<open>MODULE_NAME\<close> and the settings store
  (\<open>SettingsUtility.getSettingValue\<close>) are parameters; the result lists the calls to
  \<open>LogUtility.log\<close> and \<open>libWrapper.register\<close> in order.
\<close>

definition patchActors :: "string \<Rightarrow> (setting_name \<Rightarrow> jsval) \<Rightarrow> patch_effect list" where
  "patchActors MODULE_NAME getSettingValue =
     [Log ''Patching Actor Rolls''] @
     (if truthy (getSettingValue QUICK_SKILL_ENABLED)
      then [Register \<lparr>reg_module = MODULE_NAME, reg_target = actorPrototype @ ''.rollSkill'',
                      reg_fn = ActorRollSkill, reg_type = MIXED\<rparr>]
      else []) @
     (if truthy (getSettingValue QUICK_ABILITY_ENABLED)
      then [Register \<lparr>reg_module = MODULE_NAME, reg_target = actorPrototype @ ''.rollAbilityTest'',
                      reg_fn = ActorRollAbilityTest, reg_type = MIXED\<rparr>,
            Register \<lparr>reg_module = MODULE_NAME, reg_target = actorPrototype @ ''.rollAbilitySave'',
                      reg_fn = ActorRollAbilitySave, reg_type = MIXED\<rparr>]
      else [])"

definition patchItems :: "string \<Rightarrow> (setting_name \<Rightarrow> jsval) \<Rightarrow> patch_effect list" where
  "patchItems MODULE_NAME getSettingValue =
     [Log ''Patching Item Rolls''] @
     (if truthy (getSettingValue QUICK_ITEM_ENABLED)
      then [Register \<lparr>reg_module = MODULE_NAME, reg_target = itemPrototype @ ''.use'',
                      reg_fn = ItemUse, reg_type = MIXED\<rparr>]
      else [])"

definition patchItemSheets :: "string \<Rightarrow> (setting_name \<Rightarrow> jsval) \<Rightarrow> patch_effect list" where
  "patchItemSheets MODULE_NAME getSettingValue =
     [Log ''Patching Item Sheets''] @
     (if truthy (getSettingValue QUICK_ITEM_ENABLED)
      then [Register \<lparr>reg_module = MODULE_NAME, reg_target = itemSheetPrototype @ ''._onChangeTab'',
                      reg_fn = OnChangeTab, reg_type = OVERRIDE\<rparr>]
      else [])"

text \<open>The registrations among the effects, and the host methods they target.\<close>

fun registrations :: "patch_effect list \<Rightarrow> registration list" where
  "registrations [] = []"
| "registrations (Register r # es) = r # registrations es"
| "registrations (Log s # es) = registrations es"

definition registered_targets :: "patch_effect list \<Rightarrow> string set" where
  "registered_targets es = reg_target ` set (registrations es)"

text \<open>The setting that governs a patch function.\<close>

fun setting_of :: "patch_fn \<Rightarrow> setting_name" where
  "setting_of ActorRollSkill = QUICK_SKILL_ENABLED"
| "setting_of ActorRollAbilityTest = QUICK_ABILITY_ENABLED"
| "setting_of ActorRollAbilitySave = QUICK_ABILITY_ENABLED"
| "setting_of ItemUse = QUICK_ITEM_ENABLED"
| "setting_of OnChangeTab = QUICK_ITEM_ENABLED"

text \<open>The host method a patch function replaces.\<close>

fun target_of :: "patch_fn \<Rightarrow> string" where
  "target_of ActorRollSkill = ''CONFIG.Actor.documentClass.prototype.rollSkill''"
| "target_of ActorRollAbilityTest = ''CONFIG.Actor.documentClass.prototype.rollAbilityTest''"
| "target_of ActorRollAbilitySave = ''CONFIG.Actor.documentClass.prototype.rollAbilitySave''"
| "target_of ItemUse = ''CONFIG.Item.documentClass.prototype.use''"
| "target_of OnChangeTab = ''ItemSheet.prototype._onChangeTab''"

subsection \<open>Wrapper dispatch\<close>

text \<open>
  The collaborators of the wrappers (\<open>RollUtility\<close>, \<open>CoreUtility.eventToAltRoll\<close>) are
  outside the repository's code under study and are parameters. The original host method
  (\<open>wrapper\<close>) takes its \<open>this\<close> and its argument list. Every call to a collaborator or to
  the original is recorded, in order.
\<close>

type_synonym host_method = "jsval \<Rightarrow> jsval list \<Rightarrow> jsval"

record roller =
  rollActorWrapper :: "jsval \<Rightarrow> host_method \<Rightarrow> jsval \<Rightarrow> jsval \<Rightarrow> jsval \<Rightarrow> jsval"
  rollItemWrapper :: "jsval \<Rightarrow> host_method \<Rightarrow> jsval \<Rightarrow> jsval \<Rightarrow> jsval"
  rollSkill :: "jsval \<Rightarrow> jsval \<Rightarrow> jsval \<Rightarrow> jsval"
  rollAbilityTest :: "jsval \<Rightarrow> jsval \<Rightarrow> jsval \<Rightarrow> jsval"
  rollAbilitySave :: "jsval \<Rightarrow> jsval \<Rightarrow> jsval \<Rightarrow> jsval"
  eventToAltRoll :: "jsval \<Rightarrow> bool"

datatype roll_call =
    WrapperCall jsval "jsval list"
  | RollActorWrapper jsval jsval jsval jsval
  | RollItemWrapper jsval jsval jsval
  | RollSkill jsval jsval jsval
  | RollAbilityTest jsval jsval jsval
  | RollAbilitySave jsval jsval jsval
  | EventToAltRoll jsval

text \<open>The object \<open>{ roll, ignore }\<close> that \<open>_actorProcessWrapper\<close> returns.\<close>

record processed_roll =
  roll :: jsval
  ignore :: jsval

text \<open>The test \<open>options?.chatMessage === false || options?.vanilla\<close> of both wrappers.\<close>

definition bypass :: "heap \<Rightarrow> jsval \<Rightarrow> bool" where
  "bypass h options \<longleftrightarrow>
     opt_member h options ''chatMessage'' = JBool False \<or> truthy (opt_member h options ''vanilla'')"

definition actorProcessWrapper ::
  "roller \<Rightarrow> heap \<Rightarrow> jsval \<Rightarrow> host_method \<Rightarrow> jsval \<Rightarrow> jsval \<Rightarrow> processed_roll \<times> roll_call list"
where
  "actorProcessWrapper K h caller wrapper options ident =
     (if bypass h options
      then (\<lparr>roll = wrapper caller [ident, options], ignore = JBool True\<rparr>,
            [WrapperCall caller [ident, options]])
      else
        (let ig = nullish_coalesce (opt_member h (opt_member h options ''event'') ''altKey'') (JBool False)
         in (\<lparr>roll = rollActorWrapper K caller wrapper options ident ig, ignore = ig\<rparr>,
             [RollActorWrapper caller options ident ig])))"

definition actorRollSkill ::
  "roller \<Rightarrow> heap \<Rightarrow> jsval \<Rightarrow> host_method \<Rightarrow> jsval \<Rightarrow> jsval \<Rightarrow> jsval \<times> roll_call list"
where
  "actorRollSkill K h this wrapper skillId options =
     (let (r, calls) = actorProcessWrapper K h this wrapper options skillId
      in if truthy (ignore r) then (roll r, calls)
         else (rollSkill K this skillId (roll r), calls @ [RollSkill this skillId (roll r)]))"

definition actorRollAbilityTest ::
  "roller \<Rightarrow> heap \<Rightarrow> jsval \<Rightarrow> host_method \<Rightarrow> jsval \<Rightarrow> jsval \<Rightarrow> jsval \<times> roll_call list"
where
  "actorRollAbilityTest K h this wrapper ability options =
     (let (r, calls) = actorProcessWrapper K h this wrapper options ability
      in if truthy (ignore r) then (roll r, calls)
         else (rollAbilityTest K this ability (roll r), calls @ [RollAbilityTest this ability (roll r)]))"

definition actorRollAbilitySave ::
  "roller \<Rightarrow> heap \<Rightarrow> jsval \<Rightarrow> host_method \<Rightarrow> jsval \<Rightarrow> jsval \<Rightarrow> jsval \<times> roll_call list"
where
  "actorRollAbilitySave K h this wrapper ability options =
     (let (r, calls) = actorProcessWrapper K h this wrapper options ability
      in if truthy (ignore r) then (roll r, calls)
         else (rollAbilitySave K this ability (roll r), calls @ [RollAbilitySave this ability (roll r)]))"

text \<open>
  The flag of \<open>_itemProcessWrapper\<close>:
  \<open>(options?.event?.altKey && !CoreUtility.eventToAltRoll(options?.event)) ?? false\<close>,
  with the calls it makes (the predicate is only asked when the left operand is truthy).
\<close>

definition item_ignore :: "roller \<Rightarrow> heap \<Rightarrow> jsval \<Rightarrow> jsval \<times> roll_call list" where
  "item_ignore K h options =
     (let ev = opt_member h options ''event'';
          altKey = opt_member h ev ''altKey''
      in if truthy altKey
         then (nullish_coalesce (JBool (\<not> eventToAltRoll K ev)) (JBool False),
               [EventToAltRoll ev])
         else (nullish_coalesce altKey (JBool False), []))"

definition itemProcessWrapper ::
  "roller \<Rightarrow> heap \<Rightarrow> jsval \<Rightarrow> host_method \<Rightarrow> jsval \<Rightarrow> jsval \<times> roll_call list"
where
  "itemProcessWrapper K h caller wrapper options =
     (if bypass h options
      then (wrapper caller [options], [WrapperCall caller [options]])
      else
        (let (ig, calls) = item_ignore K h options
         in (rollItemWrapper K caller wrapper options ig,
             calls @ [RollItemWrapper caller options ig])))"

text \<open>
  \<open>_itemUse\<close>: the options are merged over a new object \<open>{ event: window.event }\<close>
  (\<open>window.event\<close> is the parameter \<open>windowEvent\<close>), top-level keys only; the merged
  object is what the wrapper sees. The result carries the heap after the call.
\<close>

definition itemUse ::
  "roller \<Rightarrow> nat \<Rightarrow> heap \<Rightarrow> jsval \<Rightarrow> jsval \<Rightarrow> host_method \<Rightarrow> jsval
     \<Rightarrow> heap \<times> (js_error + jsval) \<times> roll_call list"
where
  "itemUse K d h windowEvent this wrapper options =
     (let (h1, merged) = alloc h (JObject [(''event'', windowEvent)])
      in case mergeObject d False h1 merged options of
           Inl e \<Rightarrow> (h1, Inl e, [])
         | Inr h2 \<Rightarrow>
             (let (res, calls) = itemProcessWrapper K h2 this wrapper merged
              in (h2, Inr res, calls)))"

subsection \<open>A concrete card\<close>

text \<open>
  The heap before a card is built: \<open>defaultParams\<close> at address 1 and the field sequence
  \<open>[["header", {}], ["damage", {formula: {formula: "2d6+3"}}]]\<close> at addresses 3 and 6.
\<close>

definition example_heap0 :: heap where
  "example_heap0 =
     [JObject [], JObject (defaultParams_props (JRef 0)),
      JObject [], JArray [JStr ''header'', JRef 2],
      JObject [(''formula'', JStr ''2d6+3'')], JObject [(''formula'', JRef 4)],
      JArray [JStr ''damage'', JRef 5]]"

text \<open>
  The heap once the card exists: its parameter bag, a copy of the defaults, at address 8
  (and at 9 the empty object of \<open>params || {}\<close>).
\<close>

definition example_heap :: heap where
  "example_heap =
     example_heap0 @ [JObject [], JObject (defaultParams_props (JRef 7)), JObject []]"

definition example_card :: QuickRoll where
  "example_card =
     \<lparr>currentId = - 1, item = JUndefined, itemId = JUndefined, actor = JUndefined,
      actorId = JUndefined, tokenId = JUndefined, params = JRef 8,
      qr_fields = [JRef 3, JRef 6], templates = [], properties = [],
      isCrit = JBool False, isMultiroll = JBool False, processed = False\<rparr>"

text \<open>A render collaborator that answers each field with its sequence id.\<close>

definition example_renderer :: renderer where
  "example_renderer =
     \<lparr>renderFromField = (\<lambda>f md. Inr (JNum (md_id md))),
      renderFullCard = (\<lambda>c. JStr ''card'')\<rparr>"

subsection \<open>Concrete wrapper calls\<close>

text \<open>
  An event with Alt held (address 0), options that carry it (1), options that ask for the
  vanilla roll (2) or for no chat message (3), and an actor (4).
\<close>

definition patch_heap :: heap where
  "patch_heap =
     [JObject [(''altKey'', JBool True)],
      JObject [(''event'', JRef 0)],
      JObject [(''vanilla'', JBool True)],
      JObject [(''chatMessage'', JBool False), (''event'', JRef 0)],
      JObject [(''id'', JStr ''a1'')]]"

definition example_roller :: roller where
  "example_roller =
     \<lparr>rollActorWrapper = (\<lambda>c w opts i ig. if truthy ig then w c [i, opts] else JStr ''roll''),
      rollItemWrapper = (\<lambda>c w opts ig. if truthy ig then w c [opts] else JStr ''item card''),
      rollSkill = (\<lambda>a i r. JStr ''skill card''),
      rollAbilityTest = (\<lambda>a i r. JStr ''test card''),
      rollAbilitySave = (\<lambda>a i r. JStr ''save card''),
      eventToAltRoll = (\<lambda>ev. False)\<rparr>"

definition example_original :: host_method where
  "example_original this args = JStr ''vanilla''"

subsection \<open>A card with a roll to flatten\<close>

text \<open>
  The heap of the concrete card with one more field, \<open>["attack", {formula: {formula:
  "1d20+5"}}]\<close>, at address 12; the card holds the header and this field.
\<close>

definition attack_heap :: heap where
  "attack_heap =
     example_heap @
     [JObject [(''formula'', JStr ''1d20+5'')], JObject [(''formula'', JRef 10)],
      JArray [JStr ''attack'', JRef 11]]"

definition attack_card :: QuickRoll where
  "attack_card = example_card\<lparr>qr_fields := [JRef 3, JRef 12]\<rparr>"

subsection \<open>A card with fields that are not rolls\<close>

text \<open>
  The heap of the concrete card with four more fields: at address 13
  \<open>["other", {formula: {formula: {x: 1}}}]\<close>, whose nested formula is the object at
  address 10; at 16 \<open>["number", {formula: {formula: 5}}]\<close>; at 19
  \<open>["empty", {formula: {formula: ""}}]\<close>; at 20 \<open>["text", 5]\<close>. One card holds the first
  three, another the last.
\<close>

definition share_heap :: heap where
  "share_heap =
     example_heap @
     [JObject [(''x'', JNum 1)], JObject [(''formula'', JRef 10)],
      JObject [(''formula'', JRef 11)], JArray [JStr ''other'', JRef 12],
      JObject [(''formula'', JNum 5)], JObject [(''formula'', JRef 14)],
      JArray [JStr ''number'', JRef 15],
      JObject [(''formula'', JStr '''')], JObject [(''formula'', JRef 17)],
      JArray [JStr ''empty'', JRef 18],
      JArray [JStr ''text'', JNum 5]]"

definition share_card :: QuickRoll where
  "share_card = example_card\<lparr>qr_fields := [JRef 13, JRef 16, JRef 19]\<rparr>"

definition text_card :: QuickRoll where
  "text_card = example_card\<lparr>qr_fields := [JRef 20]\<rparr>"

text \<open>
  The objects that serialising the first of these cards creates, from address 21 on: the
  clone of each field, of which the first two have their \<open>formula\<close> assigned.
\<close>

definition share_cells :: "jsobj list" where
  "share_cells =
     [JObject [(''x'', JNum 1)], JObject [(''formula'', JRef 21)],
      JObject [(''formula'', JRef 10)], JArray [JStr ''other'', JRef 23],
      JObject [(''formula'', JNum 5)], JObject [(''formula'', JNum 5)],
      JArray [JStr ''number'', JRef 26],
      JObject [(''formula'', JStr '''')], JObject [(''formula'', JRef 28)],
      JArray [JStr ''empty'', JRef 29]]"

subsection \<open>A caller with parameters\<close>

text \<open>
  The heap before a card is built, with the caller's parameters
  \<open>{slotLevel: 3, useCharge: {value: true}}\<close> at address 8.
\<close>

definition params_heap :: heap where
  "params_heap =
     example_heap0 @
     [JObject [(''value'', JBool True)],
      JObject [(''slotLevel'', JNum 3), (''useCharge'', JRef 7)]]"

definition no_origin :: "jsval \<Rightarrow> jsval \<times> jsval" where
  "no_origin origin = (JUndefined, JUndefined)"

section \<open>Properties of the card builder\<close>

lemma render_loop_throw:
  "nullish (params q) \<Longrightarrow> render_loop R h (f # fs) q = (next_id q, [], Some TypeError)"
  by (simp add: member_def next_id_def)

lemma render_loop_reject:
  "\<not> nullish (params q) \<Longrightarrow> renderFromField R f (field_metadata h q (currentId q)) = Inl e \<Longrightarrow>
   render_loop R h (f # fs) q = (next_id q, [RenderFromField f (field_metadata h q (currentId q))], Some e)"
  by (simp add: member_def next_id_def field_metadata_def Let_def)

lemma render_loop_step:
  "\<not> nullish (params q) \<Longrightarrow> renderFromField R f (field_metadata h q (currentId q)) = Inr r \<Longrightarrow>
   render_loop R h fs (push_template r (next_id q)) = (q', cs, err) \<Longrightarrow>
   render_loop R h (f # fs) q = (q', RenderFromField f (field_metadata h q (currentId q)) # cs, err)"
  by (simp add: member_def next_id_def field_metadata_def Let_def push_template_def)

declare render_loop.simps(2) [simp del]

lemma length_expected_renders [simp]: "length (expected_renders h q c fs) = length fs"
  by (induction fs arbitrary: c) auto

lemma nth_expected_renders:
  "i < length fs \<Longrightarrow> expected_renders h q c fs ! i = (fs ! i, field_metadata h q (c + int i))"
proof (induction fs arbitrary: c i)
  case Nil
  then show ?case by simp
next
  case (Cons f fs)
  then show ?case by (cases i) (auto simp: algebra_simps)
qed

lemma field_metadata_step [simp]:
  "field_metadata h (push_template r (next_id q)) = field_metadata h q"
  by (simp add: field_metadata_def push_template_def next_id_def fun_eq_iff)

lemma expected_renders_step [simp]:
  "expected_renders h (push_template r (next_id q)) c fs = expected_renders h q c fs"
  by (induction fs arbitrary: c) auto

lemma step_simps [simp]:
  "currentId (push_template r (next_id q)) = currentId q + 1"
  "templates (push_template r (next_id q)) = templates q @ [r]"
  "params (push_template r (next_id q)) = params q"
  "processed (push_template r (next_id q)) = processed q"
  "qr_fields (push_template r (next_id q)) = qr_fields q"
  "templates (next_id q) = templates q"
  "currentId (next_id q) = currentId q + 1"
  "processed (next_id q) = processed q"
  "qr_fields (next_id q) = qr_fields q"
  by (simp_all add: push_template_def next_id_def)

lemma render_loop_calls:
  "render_loop R h fs q = (q', cs, err) \<Longrightarrow>
     length (field_renders cs) \<le> length fs \<and>
     cs = map (\<lambda>(f, md). RenderFromField f md) (field_renders cs) \<and>
     field_renders cs = take (length (field_renders cs)) (expected_renders h q (currentId q) fs)"
proof (induction fs arbitrary: q q' cs err)
  case Nil
  then show ?case by simp
next
  case (Cons f fs)
  let ?md = "field_metadata h q (currentId q)"
  show ?case
  proof (cases "nullish (params q)")
    case True
    from Cons.prems render_loop_throw[OF True, of R h f fs] have "cs = []" by simp
    then show ?thesis by simp
  next
    case False
    show ?thesis
    proof (cases "renderFromField R f ?md")
      case (Inl e)
      from Cons.prems render_loop_reject[OF False Inl, of fs]
      have "cs = [RenderFromField f ?md]" by simp
      then show ?thesis by simp
    next
      case (Inr r)
      obtain q3 cs3 e3 where rl: "render_loop R h fs (push_template r (next_id q)) = (q3, cs3, e3)"
        by (metis prod_cases3)
      from Cons.prems render_loop_step[OF False Inr rl]
      have cs: "cs = RenderFromField f ?md # cs3" by simp
      from Cons.IH[OF rl] show ?thesis unfolding cs by simp
    qed
  qed
qed

lemma render_loop_done:
  "render_loop R h fs q = (q', cs, None) \<Longrightarrow>
     length (field_renders cs) = length fs \<and>
     currentId q' = currentId q + int (length fs) \<and>
     processed q' = processed q \<and> qr_fields q' = qr_fields q \<and>
     (\<exists>rs. templates q' = templates q @ rs \<and>
        map Inr rs = map (\<lambda>(f, md). renderFromField R f md) (expected_renders h q (currentId q) fs))"
proof (induction fs arbitrary: q q' cs)
  case Nil
  then show ?case by simp
next
  case (Cons f fs)
  let ?md = "field_metadata h q (currentId q)"
  show ?case
  proof (cases "nullish (params q)")
    case True
    from Cons.prems render_loop_throw[OF True, of R h f fs] show ?thesis by simp
  next
    case False
    show ?thesis
    proof (cases "renderFromField R f ?md")
      case (Inl e)
      from Cons.prems render_loop_reject[OF False Inl, of fs] show ?thesis by simp
    next
      case (Inr r)
      obtain q3 cs3 e3 where rl: "render_loop R h fs (push_template r (next_id q)) = (q3, cs3, e3)"
        by (metis prod_cases3)
      from Cons.prems render_loop_step[OF False Inr rl]
      have cs: "cs = RenderFromField f ?md # cs3" "q' = q3" "e3 = None" by simp_all
      note IH = Cons.IH[OF rl[unfolded cs(3)]]
      from IH obtain rs where rs: "templates q3 = (templates q @ [r]) @ rs"
        "map Inr rs = map (\<lambda>(f, md). renderFromField R f md) (expected_renders h q (currentId q + 1) fs)"
        by auto
      have "templates q3 = templates q @ (r # rs) \<and>
            map Inr (r # rs) = map (\<lambda>(f, md). renderFromField R f md) (expected_renders h q (currentId q) (f # fs))"
        using rs Inr by simp
      then have ex: "\<exists>rs. templates q3 = templates q @ rs \<and>
            map Inr rs = map (\<lambda>(f, md). renderFromField R f md) (expected_renders h q (currentId q) (f # fs))"
        by blast
      from IH have "length (field_renders cs3) = length fs" "currentId q3 = currentId q + 1 + int (length fs)"
         "processed q3 = processed q" "qr_fields q3 = qr_fields q" by simp_all
      with ex show ?thesis unfolding cs by simp
    qed
  qed
qed

lemma field_renders_append: "field_renders (cs @ ds) = field_renders cs @ field_renders ds"
  by (induction cs rule: field_renders.induct) simp_all

lemma hook_calls_append: "hook_calls (cs @ ds) = hook_calls cs @ hook_calls ds"
  by (induction cs rule: hook_calls.induct) simp_all

lemma hook_calls_renders [simp]: "hook_calls (map (\<lambda>(f, md). RenderFromField f md) xs) = []"
  by (induction xs) auto

lemma render_processed:
  "processed q \<Longrightarrow>
   render R h q = (q, [HooksCallAll HOOK_RENDER, RenderFullCard (full_card q)],
                   Inr (renderFullCard R (full_card q)))"
  by (simp add: render_def)

lemma render_first_done:
  "\<not> processed q \<Longrightarrow> render_loop R h (qr_fields q) q = (q', cs, None) \<Longrightarrow>
   render R h q = (q'\<lparr>processed := True\<rparr>,
                   cs @ [HooksCallAll HOOK_RENDER, RenderFullCard (full_card (q'\<lparr>processed := True\<rparr>))],
                   Inr (renderFullCard R (full_card (q'\<lparr>processed := True\<rparr>))))"
  by (simp add: render_def)

lemma render_first_failed:
  "\<not> processed q \<Longrightarrow> render_loop R h (qr_fields q) q = (q', cs, Some e) \<Longrightarrow>
   render R h q = (q', cs, Inl e)"
  by (simp add: render_def)

lemma render_cases:
  assumes "render R h q = (q1, cs, res)"
  obtains
    (again) "processed q" "q1 = q" "cs = [HooksCallAll HOOK_RENDER, RenderFullCard (full_card q)]"
      "res = Inr (renderFullCard R (full_card q))"
  | (first_ok) q' ls where "\<not> processed q" "render_loop R h (qr_fields q) q = (q', ls, None)"
      "q1 = q'\<lparr>processed := True\<rparr>"
      "cs = ls @ [HooksCallAll HOOK_RENDER, RenderFullCard (full_card q1)]"
      "res = Inr (renderFullCard R (full_card q1))"
  | (first_failed) e where "\<not> processed q" "render_loop R h (qr_fields q) q = (q1, cs, Some e)" "res = Inl e"
proof (cases "processed q")
  case True
  have "render R h q = (q, [HooksCallAll HOOK_RENDER, RenderFullCard (full_card q)],
                   Inr (renderFullCard R (full_card q)))"
    by (rule render_processed[OF True])
  with assms have "q1 = q" "cs = [HooksCallAll HOOK_RENDER, RenderFullCard (full_card q)]"
      "res = Inr (renderFullCard R (full_card q))" by auto
  then show ?thesis by (rule again[OF True])
next
  case False
  obtain q' ls err where rl: "render_loop R h (qr_fields q) q = (q', ls, err)"
    by (metis prod_cases3)
  show ?thesis
  proof (cases err)
    case None
    note rl' = rl[unfolded None]
    from assms render_first_done[OF False rl']
    have "q1 = q'\<lparr>processed := True\<rparr>"
      "cs = ls @ [HooksCallAll HOOK_RENDER, RenderFullCard (full_card (q'\<lparr>processed := True\<rparr>))]"
      "res = Inr (renderFullCard R (full_card (q'\<lparr>processed := True\<rparr>)))" by auto
    then have "q1 = q'\<lparr>processed := True\<rparr>"
      "cs = ls @ [HooksCallAll HOOK_RENDER, RenderFullCard (full_card q1)]"
      "res = Inr (renderFullCard R (full_card q1))" by simp_all
    then show ?thesis by (rule first_ok[OF False rl'])
  next
    case (Some e)
    note rl' = rl[unfolded Some]
    from assms render_first_failed[OF False rl']
    have "q1 = q'" "cs = ls" "res = Inl e" by auto
    with rl' have "render_loop R h (qr_fields q) q = (q1, cs, Some e)" "res = Inl e" by simp_all
    then show ?thesis by (rule first_failed[OF False])
  qed
qed

lemma ids_expected_renders:
  "map (md_id \<circ> snd) (expected_renders h q c fs) = map (\<lambda>i. c + int i) [0..<length fs]"
  by (rule nth_equalityI) (simp_all add: nth_expected_renders field_metadata_def)

subsection \<open>The concrete card, rendered\<close>

lemmas example_defs = example_renderer_def example_heap_def example_heap0_def example_card_def
  defaultParams_props_def

lemma example_render_loop:
  "render_loop example_renderer example_heap (qr_fields example_card) example_card =
     (example_card\<lparr>currentId := 1, templates := [JNum (- 1), JNum 0]\<rparr>,
      [RenderFromField (JRef 3) (field_metadata example_heap example_card (- 1)),
       RenderFromField (JRef 6) (field_metadata example_heap example_card 0)], None)"
  by (simp add: example_defs render_loop.simps member_def field_metadata_def Let_def)

lemma example_render:
  "render example_renderer example_heap example_card =
     (example_card\<lparr>currentId := 1, templates := [JNum (- 1), JNum 0], processed := True\<rparr>,
      [RenderFromField (JRef 3) (field_metadata example_heap example_card (- 1)),
       RenderFromField (JRef 6) (field_metadata example_heap example_card 0),
       HooksCallAll HOOK_RENDER,
       RenderFullCard (full_card (example_card\<lparr>currentId := 1, templates := [JNum (- 1), JNum 0], processed := True\<rparr>))],
      Inr (JStr ''card''))"
proof -
  have np: "\<not> processed example_card" by (simp add: example_card_def)
  show ?thesis
    unfolding render_first_done[OF np example_render_loop]
    by (simp add: example_renderer_def)
qed

subsection \<open>Sequence ids\<close>

text \<open>
  Claim C1 as stated asks for ids that decrease from \<open>-1\<close>. On the concrete card the two
  fields get the ids \<open>-1\<close> and \<open>0\<close>: the sequence is not decreasing, not even weakly.
\<close>

theorem render_ids_decreasing_counterexample:
  "\<not> sorted_wrt (\<ge>)
       (map (md_id \<circ> snd) (field_renders (fst (snd (render example_renderer example_heap example_card)))))"
  by (simp add: example_render field_metadata_def)

text \<open>
  Claim C1, amended: during the first invocation of \<open>_render\<close> (the card not yet
  processed, the id counter at its initial value \<open>-1\<close>) the fields are visited in order,
  the \<open>i\<close>-th render call receives field \<open>i\<close> and the id \<open>i - 1\<close>; the ids increase
  strictly from \<open>-1\<close> and are pairwise distinct. Every field is visited when the call
  returns normally.
\<close>

theorem render_ids_increasing:
  assumes "\<not> processed q" and "currentId q = - 1" and "render R h q = (q', cs, res)"
  shows "(\<forall>i < length (field_renders cs).
            fst (field_renders cs ! i) = qr_fields q ! i \<and>
            md_id (snd (field_renders cs ! i)) = int i - 1) \<and>
         sorted_wrt (<) (map (md_id \<circ> snd) (field_renders cs)) \<and>
         distinct (map (md_id \<circ> snd) (field_renders cs)) \<and>
         length (field_renders cs) \<le> length (qr_fields q) \<and>
         (\<forall>html. res = Inr html \<longrightarrow> length (field_renders cs) = length (qr_fields q))"
proof -
  obtain ls where ls: "field_renders cs = field_renders ls"
    and calls: "field_renders ls = take (length (field_renders ls)) (expected_renders h q (- 1) (qr_fields q))"
    and len: "length (field_renders ls) \<le> length (qr_fields q)"
    and full: "\<And>html. res = Inr html \<Longrightarrow> length (field_renders ls) = length (qr_fields q)"
    using assms(3)
  proof (cases rule: render_cases)
    case again
    with assms(1) show ?thesis by simp
  next
    case (first_ok q0 ls)
    from render_loop_calls[OF first_ok(2)] render_loop_done[OF first_ok(2)] first_ok(4) assms(2) that[of ls]
    show ?thesis by (simp add: field_renders_append)
  next
    case (first_failed e)
    from render_loop_calls[OF first_failed(2)] first_failed(3) assms(2) that[of cs]
    show ?thesis by simp
  qed
  have nth: "field_renders cs ! i = (qr_fields q ! i, field_metadata h q (- 1 + int i))"
    if "i < length (field_renders cs)" for i
  proof -
    from that len ls have i: "i < length (qr_fields q)" by simp
    have "field_renders cs ! i = expected_renders h q (- 1) (qr_fields q) ! i"
      using that ls calls by (metis nth_take)
    with i show ?thesis by (simp add: nth_expected_renders)
  qed
  have ids: "map (md_id \<circ> snd) (field_renders cs) ! i = int i - 1" if "i < length (field_renders cs)" for i
    using that nth[OF that] by (simp add: field_metadata_def)
  have sorted: "sorted_wrt (<) (map (md_id \<circ> snd) (field_renders cs))"
    unfolding sorted_wrt_iff_nth_less using ids by simp
  have "distinct (map (md_id \<circ> snd) (field_renders cs))"
    using sorted by (simp add: strict_sorted_iff)
  with sorted nth len ls full show ?thesis by (simp add: field_metadata_def)
qed

text \<open>
  The amended claim C1 on the concrete card.
\<close>

theorem render_ids_increasing_witness:
  "\<not> processed example_card \<and> currentId example_card = - 1 \<and>
   length (field_renders (fst (snd (render example_renderer example_heap example_card)))) = 2 \<and>
   md_id (snd (field_renders (fst (snd (render example_renderer example_heap example_card))) ! 1)) = 0 \<and>
   fst (field_renders (fst (snd (render example_renderer example_heap example_card))) ! 1) = JRef 6 \<and>
   distinct (map (md_id \<circ> snd) (field_renders (fst (snd (render example_renderer example_heap example_card)))))"
proof -
  let ?r = "render example_renderer example_heap example_card"
  have h1: "\<not> processed example_card" and h2: "currentId example_card = - 1"
    by (simp_all add: example_card_def)
  have h3: "?r = (fst ?r, fst (snd ?r), Inr (JStr ''card''))"
    by (simp add: example_render)
  have len: "length (field_renders (fst (snd ?r))) = 2"
    by (simp add: example_render)
  have f: "qr_fields example_card ! 1 = JRef 6"
    by (simp add: example_card_def)
  from render_ids_increasing[OF h1 h2 h3]
  have a: "\<forall>i < length (field_renders (fst (snd ?r))).
            fst (field_renders (fst (snd ?r)) ! i) = qr_fields example_card ! i \<and>
            md_id (snd (field_renders (fst (snd ?r)) ! i)) = int i - 1"
    and d: "distinct (map (md_id \<circ> snd) (field_renders (fst (snd ?r))))"
    by blast+
  from a len have "fst (field_renders (fst (snd ?r)) ! 1) = qr_fields example_card ! 1 \<and>
            md_id (snd (field_renders (fst (snd ?r)) ! 1)) = int 1 - 1"
    by (metis one_less_numeral_iff semiring_norm(76))
  with len f d h1 h2 show ?thesis by simp
qed

subsection \<open>Templates follow the fields\<close>

text \<open>
  Claim C7: after the first \<open>_render\<close> of a card has completed, \<open>templates\<close> has
  exactly one entry per field, entry \<open>i\<close> is what the render collaborator returned for
  field \<open>i\<close>, and the collaborator was called once per field, in the order of the
  field sequence.
\<close>

theorem render_templates_in_order:
  assumes "\<not> processed q" and "templates q = []" and "render R h q = (q', cs, Inr html)"
  shows "length (templates q') = length (qr_fields q) \<and>
         (\<forall>i < length (qr_fields q).
            renderFromField R (qr_fields q ! i) (field_metadata h q (currentId q + int i))
              = Inr (templates q' ! i)) \<and>
         field_renders cs =
           map (\<lambda>i. (qr_fields q ! i, field_metadata h q (currentId q + int i)))
             [0..<length (qr_fields q)] \<and>
         qr_fields q' = qr_fields q \<and> processed q'"
  using assms(3)
proof (cases rule: render_cases)
  case again
  with assms(1) show ?thesis by simp
next
  case (first_ok q0 ls)
  let ?ex = "expected_renders h q (currentId q) (qr_fields q)"
  from render_loop_done[OF first_ok(2)] assms(2)
  have len: "length (field_renders ls) = length (qr_fields q)"
    and fs: "qr_fields q0 = qr_fields q"
    and ts: "map Inr (templates q0) = map (\<lambda>(f, md). renderFromField R f md) ?ex"
    by auto
  from render_loop_calls[OF first_ok(2)] len have calls: "field_renders ls = ?ex" by simp
  have tlen: "length (templates q0) = length (qr_fields q)"
    using arg_cong[OF ts, of length] by simp
  have tnth: "renderFromField R (qr_fields q ! i) (field_metadata h q (currentId q + int i))
              = Inr (templates q0 ! i)" if "i < length (qr_fields q)" for i
    using arg_cong[OF ts, of "\<lambda>xs. xs ! i"] that tlen by (simp add: nth_expected_renders)
  have "?ex = map (\<lambda>i. (qr_fields q ! i, field_metadata h q (currentId q + int i))) [0..<length (qr_fields q)]"
    by (rule nth_equalityI) (simp_all add: nth_expected_renders)
  with calls tlen tnth fs first_ok(3,4) show ?thesis by (simp add: field_renders_append)
next
  case (first_failed e)
  then show ?thesis by simp
qed

text \<open>
  Claim C7 on the concrete card.
\<close>

theorem render_templates_in_order_witness:
  "\<not> processed example_card \<and> templates example_card = [] \<and>
   snd (snd (render example_renderer example_heap example_card)) = Inr (JStr ''card'') \<and>
   length (templates (fst (render example_renderer example_heap example_card))) = length (qr_fields example_card) \<and>
   length (qr_fields example_card) = 2 \<and>
   renderFromField example_renderer (qr_fields example_card ! 1)
       (field_metadata example_heap example_card (currentId example_card + int 1))
     = Inr (templates (fst (render example_renderer example_heap example_card)) ! 1)"
proof -
  let ?r = "render example_renderer example_heap example_card"
  have h1: "\<not> processed example_card" and h2: "templates example_card = []"
    and l: "length (qr_fields example_card) = 2"
    by (simp_all add: example_card_def)
  have h3: "?r = (fst ?r, fst (snd ?r), Inr (JStr ''card''))"
    by (simp add: example_render)
  have r: "snd (snd ?r) = Inr (JStr ''card'')" by (simp add: example_render)
  from render_templates_in_order[OF h1 h2 h3]
  have len: "length (templates (fst ?r)) = length (qr_fields example_card)"
    and a: "\<forall>i < length (qr_fields example_card).
            renderFromField example_renderer (qr_fields example_card ! i)
              (field_metadata example_heap example_card (currentId example_card + int i))
              = Inr (templates (fst ?r) ! i)"
    by blast+
  from a l have "renderFromField example_renderer (qr_fields example_card ! 1)
              (field_metadata example_heap example_card (currentId example_card + int 1))
              = Inr (templates (fst ?r) ! 1)"
    by (metis one_less_numeral_iff semiring_norm(76))
  with len l h1 h2 r show ?thesis by simp
qed

subsection \<open>Rendering twice\<close>

text \<open>
  Claim C3: when a call of \<open>_render\<close> has returned, a second call on the same card
  leaves the card (and so its \<open>templates\<close>) as it is, makes no call to the per-field
  render collaborator and returns the same html; the render hook is called in both.
\<close>

theorem render_idempotent:
  assumes "render R h q = (q1, cs1, Inr html1)"
  shows "\<exists>q2 cs2. render R h q1 = (q2, cs2, Inr html1) \<and>
           q2 = q1 \<and> templates q2 = templates q1 \<and>
           field_renders cs2 = [] \<and> hook_calls cs2 = [HOOK_RENDER] \<and>
           hook_calls cs1 = [HOOK_RENDER]"
proof -
  have "processed q1 \<and> html1 = renderFullCard R (full_card q1) \<and> hook_calls cs1 = [HOOK_RENDER]"
    using assms
  proof (cases rule: render_cases)
    case again
    then show ?thesis by simp
  next
    case (first_ok q0 ls)
    from render_loop_calls[OF first_ok(2)]
    obtain xs where "ls = map (\<lambda>(f, md). RenderFromField f md) xs"
      by blast
    with first_ok show ?thesis by (simp add: hook_calls_append)
  next
    case (first_failed e)
    then show ?thesis by simp
  qed
  with render_processed[of q1 R h] show ?thesis by simp
qed

text \<open>
  Claim C3 on the concrete card.
\<close>

theorem render_idempotent_witness:
  "snd (snd (render example_renderer example_heap example_card)) = Inr (JStr ''card'') \<and>
   render example_renderer example_heap (fst (render example_renderer example_heap example_card))
     = (fst (render example_renderer example_heap example_card),
        [HooksCallAll HOOK_RENDER,
         RenderFullCard (full_card (fst (render example_renderer example_heap example_card)))],
        Inr (JStr ''card'')) \<and>
   hook_calls (fst (snd (render example_renderer example_heap example_card))) = [HOOK_RENDER]"
proof -
  let ?r = "render example_renderer example_heap example_card"
  have h: "?r = (fst ?r, fst (snd ?r), Inr (JStr ''card''))"
    by (simp add: example_render)
  have r: "snd (snd ?r) = Inr (JStr ''card'')" by (simp add: example_render)
  from render_idempotent[OF h] obtain cs2 where
    "render example_renderer example_heap (fst ?r) = (fst ?r, cs2, Inr (JStr ''card''))"
    "hook_calls (fst (snd ?r)) = [HOOK_RENDER]" by blast
  moreover have "processed (fst ?r)" by (simp add: example_render)
  ultimately show ?thesis using r render_processed[of "fst ?r" example_renderer example_heap]
    by simp
qed

section \<open>Properties of the patches\<close>

subsection \<open>Registration follows the settings\<close>

lemma registrations_append: "registrations (es @ fs) = registrations es @ registrations fs"
  by (induction es rule: registrations.induct) simp_all

text \<open>
  Claim C8: whatever the settings, after the three patch methods have run a wrapper is
  registered for a host method exactly when the setting that governs it is enabled, and
  nothing else is registered; with the skill-roll setting disabled no wrapper targets the
  skill-roll method.
\<close>

theorem patch_registered_iff_enabled:
  "(target_of f \<in> registered_targets (patchActors M S @ patchItems M S @ patchItemSheets M S)
      \<longleftrightarrow> truthy (S (setting_of f))) \<and>
   (\<forall>r \<in> set (registrations (patchActors M S @ patchItems M S @ patchItemSheets M S)).
      reg_target r = target_of (reg_fn r) \<and> truthy (S (setting_of (reg_fn r))) \<and> reg_module r = M)"
  by (cases f)
     (simp_all add: registered_targets_def registrations_append patchActors_def patchItems_def
        patchItemSheets_def actorPrototype_def itemPrototype_def itemSheetPrototype_def)

text \<open>
  Claim C8 with every setting enabled but the skill-roll one.
\<close>

theorem patch_registered_iff_enabled_witness:
  "target_of ActorRollSkill \<notin>
     registered_targets (patchActors ''rsr5e'' (\<lambda>s. JBool (s \<noteq> QUICK_SKILL_ENABLED)) @
                         patchItems ''rsr5e'' (\<lambda>s. JBool (s \<noteq> QUICK_SKILL_ENABLED)) @
                         patchItemSheets ''rsr5e'' (\<lambda>s. JBool (s \<noteq> QUICK_SKILL_ENABLED))) \<and>
   target_of ItemUse \<in>
     registered_targets (patchActors ''rsr5e'' (\<lambda>s. JBool (s \<noteq> QUICK_SKILL_ENABLED)) @
                         patchItems ''rsr5e'' (\<lambda>s. JBool (s \<noteq> QUICK_SKILL_ENABLED)) @
                         patchItemSheets ''rsr5e'' (\<lambda>s. JBool (s \<noteq> QUICK_SKILL_ENABLED)))"
  using patch_registered_iff_enabled[of ActorRollSkill "''rsr5e''" "\<lambda>s. JBool (s \<noteq> QUICK_SKILL_ENABLED)"]
        patch_registered_iff_enabled[of ItemUse "''rsr5e''" "\<lambda>s. JBool (s \<noteq> QUICK_SKILL_ENABLED)"]
  by simp

subsection \<open>Actor rolls without an event\<close>

text \<open>
  Claim C6: an actor roll (skill, ability test or ability save) whose options ask for no
  bypass and carry no event resolves \<open>ignore\<close> to \<open>false\<close> and takes the quick-roll
  path; the missing event raises nothing, the options may be missing altogether.
\<close>

theorem actor_no_event_quick_roll:
  assumes "\<not> bypass h options" and "nullish (opt_member h options ''event'')"
  shows "actorProcessWrapper K h caller wrapper options ident =
           (\<lparr>roll = rollActorWrapper K caller wrapper options ident (JBool False), ignore = JBool False\<rparr>,
            [RollActorWrapper caller options ident (JBool False)]) \<and>
         actorRollSkill K h caller wrapper ident options =
           (rollSkill K caller ident (rollActorWrapper K caller wrapper options ident (JBool False)),
            [RollActorWrapper caller options ident (JBool False),
             RollSkill caller ident (rollActorWrapper K caller wrapper options ident (JBool False))]) \<and>
         actorRollAbilityTest K h caller wrapper ident options =
           (rollAbilityTest K caller ident (rollActorWrapper K caller wrapper options ident (JBool False)),
            [RollActorWrapper caller options ident (JBool False),
             RollAbilityTest caller ident (rollActorWrapper K caller wrapper options ident (JBool False))]) \<and>
         actorRollAbilitySave K h caller wrapper ident options =
           (rollAbilitySave K caller ident (rollActorWrapper K caller wrapper options ident (JBool False)),
            [RollActorWrapper caller options ident (JBool False),
             RollAbilitySave caller ident (rollActorWrapper K caller wrapper options ident (JBool False))])"
proof -
  from assms(2) have "opt_member h (opt_member h options ''event'') ''altKey'' = JUndefined"
    by (simp add: opt_member_def)
  then have "nullish_coalesce (opt_member h (opt_member h options ''event'') ''altKey'') (JBool False) = JBool False"
    by (simp add: nullish_coalesce_def)
  with assms(1) have p: "actorProcessWrapper K h caller wrapper options ident =
           (\<lparr>roll = rollActorWrapper K caller wrapper options ident (JBool False), ignore = JBool False\<rparr>,
            [RollActorWrapper caller options ident (JBool False)])"
    by (simp add: actorProcessWrapper_def Let_def)
  then show ?thesis
    by (simp add: actorRollSkill_def actorRollAbilityTest_def actorRollAbilitySave_def)
qed

text \<open>
  Claim C6 for a skill roll called without options.
\<close>

theorem actor_no_event_quick_roll_witness:
  "\<not> bypass patch_heap JUndefined \<and> nullish (opt_member patch_heap JUndefined ''event'') \<and>
   actorRollSkill example_roller patch_heap (JRef 4) example_original (JStr ''ath'') JUndefined =
     (JStr ''skill card'',
      [RollActorWrapper (JRef 4) JUndefined (JStr ''ath'') (JBool False),
       RollSkill (JRef 4) (JStr ''ath'') (JStr ''roll'')])"
proof -
  have h1: "\<not> bypass patch_heap JUndefined" by (simp add: bypass_def opt_member_def)
  have h2: "nullish (opt_member patch_heap JUndefined ''event'')" by (simp add: opt_member_def)
  from actor_no_event_quick_roll[OF h1 h2, of example_roller "JRef 4" example_original "JStr ''ath''"]
  have "actorRollSkill example_roller patch_heap (JRef 4) example_original (JStr ''ath'') JUndefined =
     (rollSkill example_roller (JRef 4) (JStr ''ath'')
        (rollActorWrapper example_roller (JRef 4) example_original JUndefined (JStr ''ath'') (JBool False)),
      [RollActorWrapper (JRef 4) JUndefined (JStr ''ath'') (JBool False),
       RollSkill (JRef 4) (JStr ''ath'')
         (rollActorWrapper example_roller (JRef 4) example_original JUndefined (JStr ''ath'') (JBool False))])"
    by blast
  with h1 h2 show ?thesis by (simp add: example_roller_def)
qed

subsection \<open>The ignore flag of an item use\<close>

text \<open>
  Claim C2: an item use that does not take the bypass path hands the item-roll wrapper
  an \<open>ignore\<close> flag that is \<open>true\<close> exactly when Alt was held and the alternate-roll
  predicate answers false for the event; it is falsy otherwise, and it is the boolean
  \<open>false\<close> whenever \<open>altKey\<close> is a boolean or absent (no options, no event, no
  \<open>altKey\<close>).
\<close>

theorem item_ignore_iff_alt_and_not_alt_roll:
  assumes "\<not> bypass h options"
  shows "itemProcessWrapper K h caller wrapper options =
           (rollItemWrapper K caller wrapper options (fst (item_ignore K h options)),
            snd (item_ignore K h options) @
              [RollItemWrapper caller options (fst (item_ignore K h options))]) \<and>
         (truthy (fst (item_ignore K h options)) \<longleftrightarrow>
            truthy (opt_member h (opt_member h options ''event'') ''altKey'') \<and>
            \<not> eventToAltRoll K (opt_member h options ''event'')) \<and>
         (fst (item_ignore K h options) = JBool True \<longleftrightarrow>
            truthy (opt_member h (opt_member h options ''event'') ''altKey'') \<and>
            \<not> eventToAltRoll K (opt_member h options ''event'')) \<and>
         (nullish (opt_member h (opt_member h options ''event'') ''altKey'') \<or>
          (\<exists>b. opt_member h (opt_member h options ''event'') ''altKey'' = JBool b)
          \<longrightarrow> fst (item_ignore K h options) =
                JBool (opt_member h (opt_member h options ''event'') ''altKey'' = JBool True \<and>
                       \<not> eventToAltRoll K (opt_member h options ''event'')))"
proof -
  let ?alt = "opt_member h (opt_member h options ''event'') ''altKey''"
  have 1: "itemProcessWrapper K h caller wrapper options =
           (rollItemWrapper K caller wrapper options (fst (item_ignore K h options)),
            snd (item_ignore K h options) @
              [RollItemWrapper caller options (fst (item_ignore K h options))])"
    using assms by (simp add: itemProcessWrapper_def split_beta)
  have 2: "fst (item_ignore K h options) =
             (if truthy ?alt then JBool (\<not> eventToAltRoll K (opt_member h options ''event''))
              else if nullish ?alt then JBool False else ?alt)"
    by (simp add: item_ignore_def Let_def nullish_coalesce_def)
  have 3: "truthy (fst (item_ignore K h options)) \<longleftrightarrow>
            truthy ?alt \<and> \<not> eventToAltRoll K (opt_member h options ''event'')"
    unfolding 2 by simp
  have 4: "fst (item_ignore K h options) = JBool True \<longleftrightarrow>
            truthy ?alt \<and> \<not> eventToAltRoll K (opt_member h options ''event'')"
    unfolding 2 by (cases ?alt) auto
  have 5: "nullish ?alt \<or> (\<exists>b. ?alt = JBool b) \<longrightarrow>
           fst (item_ignore K h options) =
                JBool (?alt = JBool True \<and> \<not> eventToAltRoll K (opt_member h options ''event''))"
    unfolding 2 by (cases ?alt) auto
  from 1 3 4 5 show ?thesis by blast
qed

text \<open>
  Claim C2 for options whose event has Alt held, the predicate answering false.
\<close>

theorem item_ignore_iff_alt_and_not_alt_roll_witness:
  "\<not> bypass patch_heap (JRef 1) \<and>
   fst (item_ignore example_roller patch_heap (JRef 1)) = JBool True \<and>
   truthy (opt_member patch_heap (opt_member patch_heap (JRef 1) ''event'') ''altKey'') \<and>
   \<not> eventToAltRoll example_roller (opt_member patch_heap (JRef 1) ''event'')"
proof -
  have h1: "\<not> bypass patch_heap (JRef 1)"
    by (simp add: bypass_def opt_member_def patch_heap_def)
  have a: "truthy (opt_member patch_heap (opt_member patch_heap (JRef 1) ''event'') ''altKey'')"
    by (simp add: opt_member_def patch_heap_def)
  have p: "\<not> eventToAltRoll example_roller (opt_member patch_heap (JRef 1) ''event'')"
    by (simp add: example_roller_def)
  from item_ignore_iff_alt_and_not_alt_roll[OF h1, of example_roller "JRef 4" example_original] a p
  have "fst (item_ignore example_roller patch_heap (JRef 1)) = JBool True" by blast
  with h1 a p show ?thesis by blast
qed

subsection \<open>The bypass path\<close>

lemma get_prop_obj:
  "a < length h \<Longrightarrow> h ! a = JObject ps \<Longrightarrow>
   get_prop h (JRef a) k = (case map_of ps k of Some v \<Rightarrow> v | None \<Rightarrow> JUndefined)"
  by simp

lemma get_prop_update_other:
  "other \<noteq> JRef a \<Longrightarrow> get_prop (h[a := ob]) other k = get_prop h other k"
  by (cases other) auto

lemma own_keys_update_other:
  "other \<noteq> JRef a \<Longrightarrow> own_keys (h[a := ob]) other = own_keys h other"
  by (cases other) auto

lemma get_prop_append:
  "is_object h v \<or> (\<forall>a. v \<noteq> JRef a) \<Longrightarrow> get_prop (h @ ext) v k = get_prop h v k"
  by (cases v) (auto simp: nth_append)

lemma own_keys_append:
  "is_object h v \<or> (\<forall>a. v \<noteq> JRef a) \<Longrightarrow> own_keys (h @ ext) v = own_keys h v"
  by (cases v) (auto simp: nth_append)

lemma merge_keys_shallow:
  assumes "a < length h" and "h ! a = JObject ps" and "other \<noteq> JRef a"
  shows "\<exists>ps'. merge_keys M False h a other ks = Inr (h[a := JObject ps']) \<and>
           map_of ps' = (\<lambda>k. if k \<in> set ks then Some (get_prop h other k) else map_of ps k)"
  using assms
proof (induction ks arbitrary: h ps)
  case Nil
  have "h[a := JObject ps] = h" using Nil by (metis list_update_id)
  then show ?case by (intro exI[of _ ps]) simp
next
  case (Cons k ks)
  let ?v = "get_prop h other k"
  let ?h1 = "h[a := JObject (AList.update k ?v ps)]"
  have sp: "set_prop h a k ?v = ?h1" using Cons.prems by (simp add: set_prop_def)
  have a1: "a < length ?h1" "?h1 ! a = JObject (AList.update k ?v ps)"
    using Cons.prems by simp_all
  from Cons.IH[OF a1 Cons.prems(3)] obtain ps' where
    m: "merge_keys M False ?h1 a other ks = Inr (?h1[a := JObject ps'])"
    and mp: "map_of ps' = (\<lambda>k'. if k' \<in> set ks then Some (get_prop ?h1 other k')
                                   else map_of (AList.update k ?v ps) k')"
    by blast
  have "merge_keys M False h a other (k # ks) = Inr (h[a := JObject ps'])"
    using m sp by simp
  moreover have "map_of ps' = (\<lambda>k'. if k' \<in> set (k # ks) then Some (get_prop h other k') else map_of ps k')"
    unfolding mp using Cons.prems(3)
    by (auto simp: fun_eq_iff get_prop_update_other update_conv')
  ultimately show ?case by blast
qed

lemma bypass_is_plain: "bypass h options \<Longrightarrow> is_plain h options"
  by (cases options) (auto simp: bypass_def opt_member_def split: if_splits jsobj.splits)

lemma is_plain_is_object: "is_plain h v \<Longrightarrow> is_object h v"
  by (cases v) auto

lemma itemUse_merged:
  assumes ok: "\<not> truthy options \<or> is_object h options" and d: "0 < d"
  shows "\<exists>ps'. mergeObject d False (h @ [JObject [(''event'', we)]]) (JRef (length h)) options
           = Inr (h @ [JObject ps']) \<and>
         map_of ps' = (\<lambda>k. if k \<in> set (own_keys h options) then Some (get_prop h options k)
                            else if k = ''event'' then Some we else None)"
proof -
  let ?h1 = "h @ [JObject [(''event'', we)]]"
  let ?a = "length h"
  from d obtain d' where d': "d = Suc d'" by (cases d) auto
  have ne: "options \<noteq> JRef ?a" using ok by (cases options) auto
  have ob: "is_object h options \<or> (\<forall>a. options \<noteq> JRef a)"
    using ok by (cases options) auto
  have ok1: "\<not> truthy options \<or> is_object ?h1 options" using ok by (cases options) auto
  have a1: "?a < length ?h1" "?h1 ! ?a = JObject [(''event'', we)]" by simp_all
  from merge_keys_shallow[OF a1 ne, of "mergeObject d'" "own_keys ?h1 options"]
  obtain ps' where m: "merge_keys (mergeObject d') False ?h1 ?a options (own_keys ?h1 options)
        = Inr (?h1[?a := JObject ps'])"
    and mp: "map_of ps' = (\<lambda>k. if k \<in> set (own_keys ?h1 options) then Some (get_prop ?h1 options k)
                                  else map_of [(''event'', we)] k)"
    by blast
  have "mergeObject d False ?h1 (JRef ?a) options = Inr (h @ [JObject ps'])"
    using m ok1 by (simp add: d')
  moreover have "map_of ps' = (\<lambda>k. if k \<in> set (own_keys h options) then Some (get_prop h options k)
                            else if k = ''event'' then Some we else None)"
    unfolding mp by (auto simp: fun_eq_iff get_prop_append[OF ob] own_keys_append[OF ob])
  ultimately show ?thesis by blast
qed

lemma is_plainE:
  assumes "is_plain h v"
  obtains a ps where "v = JRef a" "a < length h" "h ! a = JObject ps"
  using assms by (cases v) (auto split: jsobj.splits)

lemma defined_prop_is_own_key:
  assumes "is_plain h v" and "get_prop h v k \<noteq> JUndefined"
  shows "k \<in> set (own_keys h v)"
proof -
  from assms(1) obtain a ps where v: "v = JRef a" "a < length h" "h ! a = JObject ps"
    by (rule is_plainE)
  from assms(2) v have "map_of ps k \<noteq> None" by (auto split: option.splits)
  then have "k \<in> fst ` set ps" by (simp add: map_of_eq_None_iff)
  with v show ?thesis by simp
qed

text \<open>
  Claim C5: when the options have \<open>chatMessage === false\<close> or a truthy \<open>vanilla\<close>,
  each actor roll and the item wrapper call the original method once, with the arguments
  they were given, return its result as it is and call no quick-roll collaborator.
  \<open>_itemUse\<close> does the same with the merged options, which agree with the caller's on
  every key the caller set.
\<close>

theorem bypass_returns_original:
  assumes "bypass h options"
  shows "actorRollSkill K h caller wrapper ident options =
           (wrapper caller [ident, options], [WrapperCall caller [ident, options]]) \<and>
         actorRollAbilityTest K h caller wrapper ident options =
           (wrapper caller [ident, options], [WrapperCall caller [ident, options]]) \<and>
         actorRollAbilitySave K h caller wrapper ident options =
           (wrapper caller [ident, options], [WrapperCall caller [ident, options]]) \<and>
         itemProcessWrapper K h caller wrapper options =
           (wrapper caller [options], [WrapperCall caller [options]]) \<and>
         (0 < d \<longrightarrow>
            (\<exists>h2. itemUse K d h windowEvent caller wrapper options =
                    (h2, Inr (wrapper caller [JRef (length h)]),
                     [WrapperCall caller [JRef (length h)]]) \<and>
                  take (length h) h2 = h \<and>
                  (\<forall>k \<in> set (own_keys h options).
                     get_prop h2 (JRef (length h)) k = get_prop h options k)))"
proof -
  have p: "actorProcessWrapper K h caller wrapper options ident =
             (\<lparr>roll = wrapper caller [ident, options], ignore = JBool True\<rparr>,
              [WrapperCall caller [ident, options]])"
    using assms by (simp add: actorProcessWrapper_def)
  have a: "actorRollSkill K h caller wrapper ident options =
           (wrapper caller [ident, options], [WrapperCall caller [ident, options]])"
    "actorRollAbilityTest K h caller wrapper ident options =
           (wrapper caller [ident, options], [WrapperCall caller [ident, options]])"
    "actorRollAbilitySave K h caller wrapper ident options =
           (wrapper caller [ident, options], [WrapperCall caller [ident, options]])"
    using p by (simp_all add: actorRollSkill_def actorRollAbilityTest_def actorRollAbilitySave_def)
  have i: "itemProcessWrapper K h caller wrapper options =
           (wrapper caller [options], [WrapperCall caller [options]])"
    using assms by (simp add: itemProcessWrapper_def)
  have u: "\<exists>h2. itemUse K d h windowEvent caller wrapper options =
                    (h2, Inr (wrapper caller [JRef (length h)]),
                     [WrapperCall caller [JRef (length h)]]) \<and>
                  take (length h) h2 = h \<and>
                  (\<forall>k \<in> set (own_keys h options).
                     get_prop h2 (JRef (length h)) k = get_prop h options k)" if d: "0 < d"
  proof -
    from assms have pl: "is_plain h options" by (rule bypass_is_plain)
    then have ok: "\<not> truthy options \<or> is_object h options" by (simp add: is_plain_is_object)
    from itemUse_merged[OF ok d, of windowEvent] obtain ps' where
      m: "mergeObject d False (h @ [JObject [(''event'', windowEvent)]]) (JRef (length h)) options
           = Inr (h @ [JObject ps'])"
      and mp: "map_of ps' = (\<lambda>k. if k \<in> set (own_keys h options) then Some (get_prop h options k)
                            else if k = ''event'' then Some windowEvent else None)"
      by blast
    let ?h2 = "h @ [JObject ps']"
    have gp: "get_prop ?h2 (JRef (length h)) k =
              (if k \<in> set (own_keys h options) then get_prop h options k
               else if k = ''event'' then windowEvent else JUndefined)" for k
      by (simp add: mp)
    note keys = defined_prop_is_own_key[OF pl]
    have nn: "\<not> nullish options" using pl by (cases options) auto
    have om: "opt_member ?h2 (JRef (length h)) k = opt_member h options k" if "k \<noteq> ''event''" for k
    proof (cases "get_prop h options k = JUndefined")
      case True
      then show ?thesis using nn that unfolding opt_member_def gp[of k] by simp
    next
      case False
      from keys[OF False] show ?thesis using nn unfolding opt_member_def gp[of k] by simp
    qed
    from assms have b2: "bypass ?h2 (JRef (length h))"
      unfolding bypass_def by (simp add: om)
    have "itemUse K d h windowEvent caller wrapper options =
                    (?h2, Inr (wrapper caller [JRef (length h)]),
                     [WrapperCall caller [JRef (length h)]])"
      using m b2 by (simp add: itemUse_def alloc_def itemProcessWrapper_def)
    moreover have "take (length h) ?h2 = h" by simp
    moreover have "\<forall>k \<in> set (own_keys h options).
                     get_prop ?h2 (JRef (length h)) k = get_prop h options k"
      using gp by simp
    ultimately show ?thesis by blast
  qed
  from a i u show ?thesis by blast
qed

text \<open>
  Claim C5 for options with \<open>vanilla: true\<close>.
\<close>

theorem bypass_returns_original_witness:
  "bypass patch_heap (JRef 2) \<and> (0::nat) < 1 \<and>
   actorRollSkill example_roller patch_heap (JRef 4) example_original (JStr ''ath'') (JRef 2) =
     (JStr ''vanilla'', [WrapperCall (JRef 4) [JStr ''ath'', JRef 2]]) \<and>
   fst (snd (itemUse example_roller 1 patch_heap JUndefined (JRef 4) example_original (JRef 2))) =
     Inr (JStr ''vanilla'') \<and>
   snd (snd (itemUse example_roller 1 patch_heap JUndefined (JRef 4) example_original (JRef 2))) =
     [WrapperCall (JRef 4) [JRef 5]]"
proof -
  have h1: "bypass patch_heap (JRef 2)"
    by (simp add: bypass_def opt_member_def patch_heap_def)
  have l: "length patch_heap = 5" by (simp add: patch_heap_def)
  have d: "(0::nat) < 1" by simp
  note t = bypass_returns_original[OF h1, of example_roller "JRef 4" example_original "JStr ''ath''" 1 JUndefined]
  note a = t[THEN conjunct1]
  note u = t[THEN conjunct2, THEN conjunct2, THEN conjunct2, THEN conjunct2, THEN mp, OF d]
  from u obtain h2 where "itemUse example_roller 1 patch_heap JUndefined (JRef 4) example_original (JRef 2) =
                    (h2, Inr (example_original (JRef 4) [JRef (length patch_heap)]),
                     [WrapperCall (JRef 4) [JRef (length patch_heap)]])" by blast
  with a h1 l d show ?thesis by (simp add: example_original_def)
qed

section \<open>Properties of the flag serialisation\<close>

subsection \<open>Cloning only allocates\<close>

lemma index_key_1 [simp]: "index_key (Suc 0) = ''1''"
  by (simp add: index_key.simps)

lemma map_heap_prefix:
  assumes "\<And>h v h' v'. f h v = Inr (h', v') \<Longrightarrow> prefix h h'"
    and "map_heap f h xs = Inr (h', ys)"
  shows "prefix h h' \<and> length ys = length xs"
  using assms(2)
proof (induction xs arbitrary: h ys)
  case Nil
  then show ?case by simp
next
  case (Cons x xs)
  from Cons.prems obtain h1 y ys' where
    1: "f h x = Inr (h1, y)" and 2: "map_heap f h1 xs = Inr (h', ys')" and 3: "ys = y # ys'"
    by (auto split: sum.splits)
  from assms(1)[OF 1] Cons.IH[OF 2] 3 show ?case
    by (auto intro: prefix_order.trans)
qed

lemma map_heap_nth:
  assumes "\<And>h v h' v'. f h v = Inr (h', v') \<Longrightarrow> prefix h h'"
    and "map_heap f h xs = Inr (h', ys)" and "i < length xs"
  shows "\<exists>hi hi'. prefix h hi \<and> prefix hi' h' \<and> f hi (xs ! i) = Inr (hi', ys ! i)"
  using assms(2,3)
proof (induction xs arbitrary: h ys i)
  case Nil
  then show ?case by simp
next
  case (Cons x xs)
  from Cons.prems obtain h1 y ys' where
    1: "f h x = Inr (h1, y)" and 2: "map_heap f h1 xs = Inr (h', ys')" and 3: "ys = y # ys'"
    by (auto split: sum.splits)
  show ?case
  proof (cases i)
    case 0
    from map_heap_prefix[OF assms(1) 2] have "prefix h1 h'" by simp
    with 1 3 0 show ?thesis by auto
  next
    case (Suc j)
    with Cons.prems have "j < length xs" by simp
    from Cons.IH[OF 2 this] obtain hi hi' where
      "prefix h1 hi" "prefix hi' h'" "f hi (xs ! j) = Inr (hi', ys' ! j)" by blast
    with assms(1)[OF 1] 3 Suc show ?thesis
      by (auto intro: prefix_order.trans)
  qed
qed

lemma alloc_prefix: "alloc h ob = (h', v) \<Longrightarrow> prefix h h'"
  by (auto simp: alloc_def)

lemma deepClone_prefix: "deepClone d h v = Inr (h', v') \<Longrightarrow> prefix h h'"
proof (induction d arbitrary: h v h' v')
  case 0
  then show ?case by simp
next
  case (Suc d)
  have mh: "prefix h1 h2 \<and> length ys = length xs"
    if "map_heap (deepClone d) h1 xs = Inr (h2, ys)" for h1 h2 xs ys
    using Suc.IH that by (rule map_heap_prefix)
  show ?case
  proof (cases v)
    case (JRef a)
    show ?thesis
    proof (cases "a < length h")
      case True
      show ?thesis
      proof (cases "h ! a")
        case (JArray xs)
        with Suc.prems JRef True obtain h1 ys where
          m: "map_heap (deepClone d) h xs = Inr (h1, ys)" and h': "h' = h1 @ [JArray ys]"
          by (auto simp: alloc_def split: sum.splits)
        from mh[OF m] have "prefix h h1" by simp
        then show ?thesis unfolding h' by (rule prefix_prefix)
      next
        case (JObject ps)
        with Suc.prems JRef True obtain h1 ys where
          m: "map_heap (deepClone d) h (map snd ps) = Inr (h1, ys)"
          and h': "h' = h1 @ [JObject (zip (map fst ps) ys)]"
          by (auto simp: alloc_def split: sum.splits)
        from mh[OF m] have "prefix h h1" by simp
        then show ?thesis unfolding h' by (rule prefix_prefix)
      qed
    next
      case False
      with Suc.prems JRef show ?thesis by simp
    qed
  qed (use Suc.prems in auto)
qed

lemma map_deepClone_prefix:
  assumes "map_heap (deepClone d) h xs = Inr (h', ys)"
  shows "prefix h h' \<and> length ys = length xs"
  using deepClone_prefix assms by (rule map_heap_prefix)

lemma map_deepClone_nth:
  assumes "map_heap (deepClone d) h xs = Inr (h', ys)" and "i < length xs"
  shows "\<exists>hi hi'. prefix h hi \<and> prefix hi' h' \<and> deepClone d hi (xs ! i) = Inr (hi', ys ! i)"
  using deepClone_prefix assms by (rule map_heap_nth)

lemma deepClone_ref_fresh:
  "deepClone d h v = Inr (h', JRef c) \<Longrightarrow> length h \<le> c"
proof (cases d)
  case 0
  then show "deepClone d h v = Inr (h', JRef c) \<Longrightarrow> length h \<le> c" by simp
next
  case (Suc d')
  assume dc: "deepClone d h v = Inr (h', JRef c)"
  note mh = map_deepClone_prefix[of d']
  show "length h \<le> c"
  proof (cases v)
    case (JRef a)
    show ?thesis
    proof (cases "a < length h")
      case True
      show ?thesis
      proof (cases "h ! a")
        case (JArray xs)
        with dc Suc JRef True obtain h1 ys where
          m: "map_heap (deepClone d') h xs = Inr (h1, ys)" and c: "c = length h1"
          by (auto simp: alloc_def split: sum.splits)
        from mh[OF m] show ?thesis unfolding c by (simp add: prefix_length_le)
      next
        case (JObject ps)
        with dc Suc JRef True obtain h1 ys where
          m: "map_heap (deepClone d') h (map snd ps) = Inr (h1, ys)" and c: "c = length h1"
          by (auto simp: alloc_def split: sum.splits)
        from mh[OF m] show ?thesis unfolding c by (simp add: prefix_length_le)
      qed
    next
      case False
      with dc Suc JRef show ?thesis by simp
    qed
  qed (use dc Suc in auto)
qed

lemma assign_prop_InrE:
  assumes "assign_prop h target k v = Inr h2"
  obtains c where "target = JRef c" "h2 = set_prop h c k v"
  using assms by (cases target) auto

lemma flag_field_cases:
  assumes "flag_field d h f = Inr (h', g)"
  obtains
    (copied) "deepClone d h f = Inr (h', g)" "flatten_test h' f = Inr False"
  | (flattened) h1 c where
      "deepClone d h f = Inr (h1, g)"
      "flatten_test h1 f = Inr True"
      "get_index h1 g 1 = JRef c"
      "h' = set_prop h1 c ''formula''
              (get_prop h1 (get_prop h1 (get_index h1 f 1) ''formula'') ''formula'')"
proof -
  from assms obtain h1 where dc: "deepClone d h f = Inr (h1, g)"
    unfolding flag_field_def by (auto split: sum.splits prod.splits if_splits)
  show ?thesis
  proof (cases "flatten_test h1 f")
    case (Inl e)
    with assms dc show ?thesis unfolding flag_field_def by simp
  next
    case (Inr flatten)
    show ?thesis
    proof (cases flatten)
      case False
      with assms dc Inr have "h' = h1" unfolding flag_field_def by simp
      with dc Inr False copied show ?thesis by simp
    next
      case True
      show ?thesis
      proof (cases "index_member h1 g 1")
        case (Inl e)
        with assms dc Inr True show ?thesis unfolding flag_field_def by simp
      next
        case tg: (Inr target)
        then have tgt: "target = get_index h1 g 1"
          by (auto simp: index_member_def split: if_splits)
        let ?v = "get_prop h1 (get_prop h1 (get_index h1 f 1) ''formula'') ''formula''"
        from assms dc Inr True tg
        have "assign_prop h1 target ''formula'' ?v = Inr h'"
          unfolding flag_field_def by (auto split: sum.splits)
        then obtain c where tc: "target = JRef c" and h': "h' = set_prop h1 c ''formula'' ?v"
          by (rule assign_prop_InrE)
        from tc tgt have gi: "get_index h1 g 1 = JRef c" by simp
        from Inr True have ft: "flatten_test h1 f = Inr True" by simp
        from dc ft gi h' show ?thesis by (rule flattened)
      qed
    qed
  qed
qed

lemma clone_index_fresh:
  assumes dc: "deepClone d h f = Inr (h1, g)" and gi: "get_index h1 g i = JRef c"
  shows "length h \<le> c"
proof (cases d)
  case 0
  with dc show ?thesis by simp
next
  case (Suc d')
  have elem: "length h \<le> c" if "j < length xs" "map_heap (deepClone d') h xs = Inr (hn, ys)"
    "ys ! j = JRef c" for j xs hn ys
  proof -
    from map_deepClone_nth[OF that(2,1)] that(3) obtain hi hi' where
      "prefix h hi" "deepClone d' hi (xs ! j) = Inr (hi', JRef c)" by auto
    then show ?thesis using deepClone_ref_fresh prefix_length_le by (metis order_trans)
  qed
  show ?thesis
  proof (cases f)
    case (JRef a)
    show ?thesis
    proof (cases "a < length h")
      case True
      show ?thesis
      proof (cases "h ! a")
        case (JArray xs)
        with dc Suc JRef True obtain hn ys where
          m: "map_heap (deepClone d') h xs = Inr (hn, ys)" and h1: "h1 = hn @ [JArray ys]"
          and g: "g = JRef (length hn)"
          by (auto simp: alloc_def split: sum.splits)
        from map_deepClone_prefix[OF m] have len: "length ys = length xs" by simp
        from gi h1 g have "i < length ys" "ys ! i = JRef c" by (auto split: if_splits)
        with elem[OF _ m] len show ?thesis by simp
      next
        case (JObject ps)
        with dc Suc JRef True obtain hn ys where
          m: "map_heap (deepClone d') h (map snd ps) = Inr (hn, ys)"
          and h1: "h1 = hn @ [JObject (zip (map fst ps) ys)]"
          and g: "g = JRef (length hn)"
          by (auto simp: alloc_def split: sum.splits)
        from map_deepClone_prefix[OF m] have len: "length ys = length (map snd ps)" by simp
        from gi h1 g have "map_of (zip (map fst ps) ys) (index_key i) = Some (JRef c)"
          by (auto split: option.splits)
        then have "JRef c \<in> set ys" by (meson map_of_SomeD set_zip_rightD)
        then obtain j where "j < length ys" "ys ! j = JRef c" by (auto simp: in_set_conv_nth)
        with elem[OF _ m] len show ?thesis by simp
      qed
    next
      case False
      with dc Suc JRef have "h1 = h" "g = JRef a" by auto
      with gi False show ?thesis by simp
    qed
  qed (use dc Suc gi in \<open>auto split: if_splits\<close>)
qed

lemma set_prop_prefix:
  assumes "prefix h h1" and "length h \<le> c"
  shows "prefix h (set_prop h1 c k v)"
proof -
  from assms(1) obtain ext where h1: "h1 = h @ ext" by (auto simp: prefix_def)
  show ?thesis
    unfolding set_prop_def h1 using assms(2)
    by (auto simp: list_update_append split: jsobj.splits)
qed

lemma flag_field_prefix:
  assumes "flag_field d h f = Inr (h', g)"
  shows "prefix h h'"
  using assms
proof (cases rule: flag_field_cases)
  case copied
  from copied(1) show ?thesis by (rule deepClone_prefix)
next
  case (flattened h1 c)
  from clone_index_fresh[OF flattened(1,3)] deepClone_prefix[OF flattened(1)]
  show ?thesis unfolding flattened(4) by (intro set_prop_prefix)
qed

lemma getFlags_prefix:
  assumes "getFlags d version h q = Inr (h', fl)"
  shows "prefix h h'"
proof -
  from assms obtain fs where "map_heap (flag_field d) h (qr_fields q) = Inr (h', fs)"
    unfolding getFlags_def by (auto split: sum.splits)
  with flag_field_prefix show ?thesis by (rule map_heap_prefix[THEN conjunct1])
qed

subsection \<open>The content of a clone\<close>

lemma those_map_Some:
  "those (map f xs) = Some ts \<longleftrightarrow> list_all2 (\<lambda>x t. f x = Some t) xs ts"
proof (induction xs arbitrary: ts)
  case Nil
  then show ?case by auto
next
  case (Cons x xs)
  show ?case
  proof (cases "f x")
    case None
    then show ?thesis by (auto simp: list_all2_Cons1)
  next
    case (Some t)
    with Cons.IH show ?thesis by (cases ts) (auto simp: list_all2_Cons1)
  qed
qed

lemma tree_of_prim [simp]:
  "tree_of (Suc d) h JUndefined = Some TUndefined"
  "tree_of (Suc d) h JNull = Some TNull"
  "tree_of (Suc d) h (JBool b) = Some (TBool b)"
  "tree_of (Suc d) h (JNum n) = Some (TNum n)"
  "tree_of (Suc d) h (JStr s) = Some (TStr s)"
  by simp_all

lemma tree_of_ref:
  "tree_of (Suc d) h (JRef a) =
     (if a < length h then
        (case h ! a of
           JArray xs \<Rightarrow> map_option TArray (those (map (tree_of d h) xs))
         | JObject ps \<Rightarrow>
             map_option (\<lambda>ts. TObject (zip (map fst ps) ts))
               (those (map (tree_of d h) (map snd ps))))
      else None)"
  by simp

declare tree_of.simps(2) [simp del]

lemma tree_of_array:
  "a < length h \<Longrightarrow> h ! a = JArray xs \<Longrightarrow>
   tree_of (Suc d) h (JRef a) = Some t \<longleftrightarrow>
     (\<exists>ts. t = TArray ts \<and> list_all2 (\<lambda>x t. tree_of d h x = Some t) xs ts)"
  by (auto simp: tree_of_ref those_map_Some)

lemma tree_of_object:
  "a < length h \<Longrightarrow> h ! a = JObject ps \<Longrightarrow>
   tree_of (Suc d) h (JRef a) = Some t \<longleftrightarrow>
     (\<exists>pts. t = TObject (zip (map fst ps) pts) \<and>
        list_all2 (\<lambda>p t. tree_of d h (snd p) = Some t) ps pts)"
  by (auto simp: tree_of_ref those_map_Some list_all2_map1)

lemma tree_of_ref_cases:
  assumes "tree_of (Suc d) h (JRef a) = Some t"
  obtains (array) xs ts where "a < length h" "h ! a = JArray xs" "t = TArray ts"
      "list_all2 (\<lambda>x t. tree_of d h x = Some t) xs ts"
  | (object) ps pts where "a < length h" "h ! a = JObject ps" "t = TObject (zip (map fst ps) pts)"
      "list_all2 (\<lambda>p t. tree_of d h (snd p) = Some t) ps pts"
proof -
  from assms have a: "a < length h" by (auto simp: tree_of_ref split: if_splits)
  show ?thesis
  proof (cases "h ! a")
    case (JArray xs)
    with assms a array show ?thesis by (auto simp: tree_of_array)
  next
    case (JObject ps)
    with assms a object show ?thesis by (auto simp: tree_of_object)
  qed
qed

lemma tree_of_append:
  "tree_of d h v = Some t \<Longrightarrow> tree_of d (h @ ext) v = Some t"
proof (induction d arbitrary: v t)
  case 0
  then show ?case by simp
next
  case (Suc d)
  show ?case
  proof (cases v)
    case (JRef a)
    from Suc.prems[unfolded JRef] show ?thesis unfolding JRef
    proof (cases rule: tree_of_ref_cases)
      case (array xs ts)
      from array(4) Suc.IH have "list_all2 (\<lambda>x t. tree_of d (h @ ext) x = Some t) xs ts"
        by (auto elim: list_all2_mono)
      moreover have "a < length (h @ ext)" "(h @ ext) ! a = JArray xs"
        using array(1,2) by (simp_all add: nth_append)
      ultimately show "tree_of (Suc d) (h @ ext) (JRef a) = Some t"
        using array(3) by (simp add: tree_of_array)
    next
      case (object ps pts)
      from object(4) Suc.IH have "list_all2 (\<lambda>p t. tree_of d (h @ ext) (snd p) = Some t) ps pts"
        by (auto elim: list_all2_mono)
      moreover have "a < length (h @ ext)" "(h @ ext) ! a = JObject ps"
        using object(1,2) by (simp_all add: nth_append)
      ultimately show "tree_of (Suc d) (h @ ext) (JRef a) = Some t"
        using object(3) by (auto simp: tree_of_object)
    qed
  qed (use Suc.prems in auto)
qed

lemma tree_of_prefix:
  "prefix h h' \<Longrightarrow> tree_of d h v = Some t \<Longrightarrow> tree_of d h' v = Some t"
  by (auto simp: prefix_def tree_of_append)

text \<open>The trees of clones depend on the new cells only.\<close>

lemma local_tree_shift:
  "local_tree d n ext v t \<Longrightarrow> local_tree d n (ext @ ext2) v t"
  unfolding local_tree_def by (metis append.assoc)

lemma local_tree_skip:
  "local_tree d (n + length pre) ext v t \<Longrightarrow> local_tree d n (pre @ ext) v t"
  unfolding local_tree_def
proof (intro allI impI)
  fix hx sfx :: "jsobj list"
  assume a: "\<forall>hx sfx. length hx = n + length pre \<longrightarrow> tree_of d (hx @ ext @ sfx) v = Some t"
    and n: "length hx = n"
  from n have "length (hx @ pre) = n + length pre" by simp
  with a have "tree_of d ((hx @ pre) @ ext @ sfx) v = Some t" by blast
  then show "tree_of d (hx @ (pre @ ext) @ sfx) v = Some t" by simp
qed

lemma clone_trees_step:
  assumes IH: "\<And>h v t. tree_of d h v = Some t \<Longrightarrow>
      \<exists>ext v'. deepClone d h v = Inr (h @ ext, v') \<and> local_tree d (length h) ext v' t"
    and "list_all2 (\<lambda>x t. tree_of d h x = Some t) xs ts"
  shows "\<exists>ext ys. map_heap (deepClone d) h xs = Inr (h @ ext, ys) \<and>
           list_all2 (local_tree d (length h) ext) ys ts"
  using assms(2)
proof (induction xs arbitrary: h ts)
  case Nil
  then show ?case by simp
next
  case (Cons x xs)
  from Cons.prems obtain t ts' where ts: "ts = t # ts'" and t: "tree_of d h x = Some t"
    and rest: "list_all2 (\<lambda>x t. tree_of d h x = Some t) xs ts'"
    by (auto simp: list_all2_Cons1)
  from IH[OF t] obtain e1 y where c1: "deepClone d h x = Inr (h @ e1, y)"
    and l1: "local_tree d (length h) e1 y t" by blast
  from rest have "list_all2 (\<lambda>x t. tree_of d (h @ e1) x = Some t) xs ts'"
    by (auto elim: list_all2_mono simp: tree_of_append)
  from Cons.IH[OF this] obtain e2 ys where
    c2: "map_heap (deepClone d) (h @ e1) xs = Inr ((h @ e1) @ e2, ys)"
    and l2: "list_all2 (local_tree d (length (h @ e1)) e2) ys ts'" by blast
  have "map_heap (deepClone d) h (x # xs) = Inr (h @ (e1 @ e2), y # ys)"
    using c1 c2 by simp
  moreover have "local_tree d (length h) (e1 @ e2) y t"
    using l1 by (rule local_tree_shift)
  moreover have "list_all2 (local_tree d (length h) (e1 @ e2)) ys ts'"
    using l2 by (auto elim!: list_all2_mono intro: local_tree_skip)
  ultimately show ?case unfolding ts by blast
qed

lemma local_tree_new_array:
  assumes "list_all2 (local_tree d n ext) ys ts"
  shows "local_tree (Suc d) n (ext @ [JArray ys]) (JRef (n + length ext)) (TArray ts)"
  unfolding local_tree_def
proof (intro allI impI)
  fix hx sfx :: "jsobj list"
  assume n: "length hx = n"
  let ?H = "hx @ (ext @ [JArray ys]) @ sfx"
  have cell: "n + length ext < length ?H" "?H ! (n + length ext) = JArray ys"
    using n by (simp_all add: nth_append)
  have "list_all2 (\<lambda>y t. tree_of d ?H y = Some t) ys ts"
    using assms n unfolding local_tree_def
    by (auto elim!: list_all2_mono)
  with cell show "tree_of (Suc d) ?H (JRef (n + length ext)) = Some (TArray ts)"
    by (simp add: tree_of_array)
qed

lemma local_tree_new_object:
  assumes "list_all2 (local_tree d n ext) ys ts" and "length ks = length ys"
  shows "local_tree (Suc d) n (ext @ [JObject (zip ks ys)]) (JRef (n + length ext))
           (TObject (zip ks ts))"
  unfolding local_tree_def
proof (intro allI impI)
  fix hx sfx :: "jsobj list"
  assume n: "length hx = n"
  let ?H = "hx @ (ext @ [JObject (zip ks ys)]) @ sfx"
  have cell: "n + length ext < length ?H" "?H ! (n + length ext) = JObject (zip ks ys)"
    using n by (simp_all add: nth_append)
  have "list_all2 (\<lambda>y t. tree_of d ?H y = Some t) ys ts"
    using assms(1) n unfolding local_tree_def
    by (auto elim!: list_all2_mono)
  then have "list_all2 (\<lambda>p t. tree_of d ?H (snd p) = Some t) (zip ks ys) ts"
    using assms(2) by (auto simp: list_all2_conv_all_nth)
  moreover have "map fst (zip ks ys) = ks"
    using assms(2) by simp
  ultimately show "tree_of (Suc d) ?H (JRef (n + length ext)) = Some (TObject (zip ks ts))"
    using cell by (simp add: tree_of_object del: map_fst_zip) (metis)
qed

lemma clone_tree:
  "tree_of d h v = Some t \<Longrightarrow>
     \<exists>ext v'. deepClone d h v = Inr (h @ ext, v') \<and> local_tree d (length h) ext v' t"
proof (induction d arbitrary: h v t)
  case 0
  then show ?case by simp
next
  case (Suc d)
  show ?case
  proof (cases v)
    case (JRef a)
    from Suc.prems[unfolded JRef] show ?thesis unfolding JRef
    proof (cases rule: tree_of_ref_cases)
      case (array xs ts)
      from clone_trees_step[of d, OF Suc.IH array(4)] obtain ext ys where
        m: "map_heap (deepClone d) h xs = Inr (h @ ext, ys)"
        and l: "list_all2 (local_tree d (length h) ext) ys ts" by blast
      have "deepClone (Suc d) h (JRef a) = Inr (h @ (ext @ [JArray ys]), JRef (length h + length ext))"
        using array(1,2) m by (simp add: alloc_def)
      with local_tree_new_array[OF l] array(3) show
        "\<exists>ext v'. deepClone (Suc d) h (JRef a) = Inr (h @ ext, v') \<and> local_tree (Suc d) (length h) ext v' t"
        by blast
    next
      case (object ps pts)
      from object(4) have "list_all2 (\<lambda>x t. tree_of d h x = Some t) (map snd ps) pts"
        by (simp add: list_all2_map1)
      from clone_trees_step[of d, OF Suc.IH this] obtain ext ys where
        m: "map_heap (deepClone d) h (map snd ps) = Inr (h @ ext, ys)"
        and l: "list_all2 (local_tree d (length h) ext) ys pts" by blast
      from l object(4) have len: "length (map fst ps) = length ys"
        by (auto dest!: list_all2_lengthD)
      have "deepClone (Suc d) h (JRef a) =
              Inr (h @ (ext @ [JObject (zip (map fst ps) ys)]), JRef (length h + length ext))"
        using object(1,2) m by (simp add: alloc_def)
      with local_tree_new_object[OF l len] object(3) show
        "\<exists>ext v'. deepClone (Suc d) h (JRef a) = Inr (h @ ext, v') \<and> local_tree (Suc d) (length h) ext v' t"
        by blast
    qed
  next
    case JUndefined
    with Suc.prems show ?thesis by (auto simp: local_tree_def intro!: exI[of _ "[]"])
  next
    case JNull
    with Suc.prems show ?thesis by (auto simp: local_tree_def intro!: exI[of _ "[]"])
  next
    case (JBool b)
    with Suc.prems show ?thesis by (auto simp: local_tree_def intro!: exI[of _ "[]"])
  next
    case (JNum n)
    with Suc.prems show ?thesis by (auto simp: local_tree_def intro!: exI[of _ "[]"])
  next
    case (JStr s)
    with Suc.prems show ?thesis by (auto simp: local_tree_def intro!: exI[of _ "[]"])
  qed
qed

lemma clone_trees:
  assumes "list_all2 (\<lambda>x t. tree_of d h x = Some t) xs ts"
  shows "\<exists>ext ys. map_heap (deepClone d) h xs = Inr (h @ ext, ys) \<and>
           list_all2 (local_tree d (length h) ext) ys ts"
  using clone_tree assms by (rule clone_trees_step)

subsection \<open>Clones refer to new cells only\<close>

lemma region_closed_snoc:
  assumes "region_closed n h" and "\<forall>r \<in> refs_of ob. n \<le> r"
  shows "region_closed n (h @ [ob])"
  using assms unfolding region_closed_def
  by (auto simp: nth_append less_Suc_eq)

lemma map_heap_fresh:
  assumes step: "\<And>h v h' v'. f h v = Inr (h', v') \<Longrightarrow> n \<le> length h \<Longrightarrow> region_closed n h
             \<Longrightarrow> region_closed n h' \<and> val_fresh n v'"
    and pre: "\<And>h v h' v'. f h v = Inr (h', v') \<Longrightarrow> prefix h h'"
    and "map_heap f h xs = Inr (h', ys)" and "n \<le> length h" and "region_closed n h"
  shows "region_closed n h' \<and> (\<forall>y \<in> set ys. val_fresh n y)"
  using assms(3-5)
proof (induction xs arbitrary: h ys)
  case Nil
  then show ?case by simp
next
  case (Cons x xs)
  from Cons.prems(1) obtain h1 y ys' where
    1: "f h x = Inr (h1, y)" and 2: "map_heap f h1 xs = Inr (h', ys')" and 3: "ys = y # ys'"
    by (auto split: sum.splits)
  from step[OF 1 Cons.prems(2,3)] have rc: "region_closed n h1" and vf: "val_fresh n y" by simp_all
  from pre[OF 1] Cons.prems(2) have "n \<le> length h1"
    by (meson order_trans prefix_length_le)
  from Cons.IH[OF 2 this rc] vf 3 show ?case by simp
qed

lemma deepClone_fresh:
  "deepClone d h v = Inr (h', v') \<Longrightarrow> n \<le> length h \<Longrightarrow> region_closed n h
     \<Longrightarrow> region_closed n h' \<and> val_fresh n v'"
proof (induction d arbitrary: h v h' v')
  case 0
  then show ?case by simp
next
  case (Suc d)
  have mh: "region_closed n h2 \<and> (\<forall>y \<in> set ys. val_fresh n y)"
    if "map_heap (deepClone d) h1 xs = Inr (h2, ys)" "n \<le> length h1" "region_closed n h1"
    for h1 h2 xs ys
    using Suc.IH deepClone_prefix that by (rule map_heap_fresh)
  show ?case
  proof (cases v)
    case (JRef a)
    show ?thesis
    proof (cases "a < length h")
      case True
      show ?thesis
      proof (cases "h ! a")
        case (JArray xs)
        with Suc.prems(1) JRef True obtain h1 ys where
          m: "map_heap (deepClone d) h xs = Inr (h1, ys)" and h': "h' = h1 @ [JArray ys]"
          and v': "v' = JRef (length h1)"
          by (auto simp: alloc_def split: sum.splits)
        from mh[OF m Suc.prems(2,3)] have rc: "region_closed n h1" and ys: "\<forall>y \<in> set ys. val_fresh n y"
          by simp_all
        from map_deepClone_prefix[OF m] Suc.prems(2) have n: "n \<le> length h1"
          by (meson order_trans prefix_length_le)
        from ys have "\<forall>r \<in> refs_of (JArray ys). n \<le> r" by (auto simp: val_fresh_def)
        with rc have "region_closed n h'" unfolding h' by (rule region_closed_snoc)
        with n v' show ?thesis by (simp add: val_fresh_def)
      next
        case (JObject ps)
        with Suc.prems(1) JRef True obtain h1 ys where
          m: "map_heap (deepClone d) h (map snd ps) = Inr (h1, ys)"
          and h': "h' = h1 @ [JObject (zip (map fst ps) ys)]"
          and v': "v' = JRef (length h1)"
          by (auto simp: alloc_def split: sum.splits)
        from mh[OF m Suc.prems(2,3)] have rc: "region_closed n h1" and ys: "\<forall>y \<in> set ys. val_fresh n y"
          by simp_all
        from map_deepClone_prefix[OF m] Suc.prems(2) have n: "n \<le> length h1"
          by (meson order_trans prefix_length_le)
        from ys have "\<forall>r \<in> refs_of (JObject (zip (map fst ps) ys)). n \<le> r"
          by (auto simp: val_fresh_def dest!: set_zip_rightD)
        with rc have "region_closed n h'" unfolding h' by (rule region_closed_snoc)
        with n v' show ?thesis by (simp add: val_fresh_def)
      qed
    next
      case False
      with Suc.prems JRef show ?thesis by (auto simp: val_fresh_def)
    qed
  qed (use Suc.prems in \<open>auto simp: val_fresh_def\<close>)
qed

lemma snd_set_update: "snd ` set (AList.update k v ps) \<subseteq> insert v (snd ` set ps)"
  by (induction ps) auto

lemma set_prop_fresh:
  assumes "region_closed n h" and "val_fresh n v"
  shows "region_closed n (set_prop h c k v)"
proof (cases "c < length h")
  case False
  with assms show ?thesis by (simp add: set_prop_def)
next
  case True
  show ?thesis
  proof (cases "h ! c")
    case (JArray xs)
    with assms True show ?thesis by (simp add: set_prop_def)
  next
    case (JObject ps)
    have sp: "set_prop h c k v = h[c := JObject (AList.update k v ps)]"
      using True JObject by (simp add: set_prop_def)
    show ?thesis
      unfolding sp region_closed_def
    proof (intro allI impI ballI)
      fix a r
      assume a: "n \<le> a \<and> a < length (h[c := JObject (AList.update k v ps)])"
        and r: "r \<in> refs_of (h[c := JObject (AList.update k v ps)] ! a)"
      show "n \<le> r"
      proof (cases "a = c")
        case True
        with r \<open>c < length h\<close> have "JRef r \<in> snd ` set (AList.update k v ps)" by simp
        with snd_set_update[of k v ps] have "JRef r = v \<or> JRef r \<in> snd ` set ps" by auto
        then show ?thesis
        proof
          assume "JRef r = v"
          with assms(2) show ?thesis by (auto simp: val_fresh_def)
        next
          assume "JRef r \<in> snd ` set ps"
          with JObject have "r \<in> refs_of (h ! c)" by simp
          with assms(1) a True show ?thesis unfolding region_closed_def by auto
        qed
      next
        case False
        with r have "r \<in> refs_of (h ! a)" by simp
        with assms(1) a show ?thesis unfolding region_closed_def by auto
      qed
    qed
  qed
qed

lemma reach_fresh:
  assumes "region_closed n h" and "val_fresh n v" and "a \<in> reach h v"
  shows "n \<le> a"
  using assms(3)
proof (induction rule: reach.induct)
  case (start a)
  with assms(2) show ?case by (simp add: val_fresh_def)
next
  case (step a r)
  with assms(1) show ?case unfolding region_closed_def by blast
qed

lemma map_of_rel:
  "list_all2 (\<lambda>p t. R (snd p) t) ps pts \<Longrightarrow>
     rel_option R (map_of ps k) (map_of (zip (map fst ps) pts) k)"
proof (induction ps arbitrary: pts)
  case Nil
  then show ?case by simp
next
  case (Cons p ps)
  then show ?case by (cases pts) (auto simp: list_all2_Cons1)
qed

lemma update_rel:
  "list_all2 (\<lambda>p t. R (snd p) t) ps pts \<Longrightarrow> R v tv \<Longrightarrow>
     \<exists>pts'. AList.update k tv (zip (map fst ps) pts) = zip (map fst (AList.update k v ps)) pts' \<and>
            list_all2 (\<lambda>p t. R (snd p) t) (AList.update k v ps) pts'"
proof (induction ps arbitrary: pts)
  case Nil
  then show ?case by (auto intro!: exI[of _ "[tv]"])
next
  case (Cons p ps)
  from Cons.prems obtain t pts0 where pts: "pts = t # pts0" and t: "R (snd p) t"
    and rest: "list_all2 (\<lambda>p t. R (snd p) t) ps pts0"
    by (auto simp: list_all2_Cons1)
  show ?case
  proof (cases "fst p = k")
    case True
    with pts t rest Cons.prems(2) show ?thesis
      by (auto intro!: exI[of _ "tv # pts0"])
  next
    case False
    from Cons.IH[OF rest Cons.prems(2)] obtain pts' where
      "AList.update k tv (zip (map fst ps) pts0) = zip (map fst (AList.update k v ps)) pts'"
      "list_all2 (\<lambda>p t. R (snd p) t) (AList.update k v ps) pts'" by blast
    with False pts t show ?thesis
      by (auto intro!: exI[of _ "t # pts'"])
  qed
qed

subsection \<open>The test of the callback, read on the content of the field\<close>

lemma index_key_digits: "set (index_key n) \<subseteq> set ''0123456789''"
proof (induction n rule: index_key.induct)
  case (1 n)
  show ?case
  proof (cases "n < 10")
    case True
    then have "''0123456789'' ! n \<in> set ''0123456789''" by (intro nth_mem) simp
    with True show ?thesis by (subst index_key.simps) simp
  next
    case False
    have "n mod 10 < 10" by simp
    then have "''0123456789'' ! (n mod 10) \<in> set ''0123456789''" by (intro nth_mem) simp
    with False 1 show ?thesis by (subst index_key.simps) simp
  qed
qed

lemma formula_not_index: "''formula'' \<noteq> index_key n"
proof
  assume "''formula'' = index_key n"
  then have "CHR ''f'' \<in> set (index_key n)" by (metis list.set_intros(1))
  with index_key_digits[of n] show False by auto
qed

lemma has_property_array:
  "a < length h \<Longrightarrow> h ! a = JArray xs \<Longrightarrow> has_property h ''formula'' (JRef a) = Inr False"
  using formula_not_index by (auto)

lemma has_property_object:
  "a < length h \<Longrightarrow> h ! a = JObject ps \<Longrightarrow>
   has_property h ''formula'' (JRef a) = Inr (map_of ps ''formula'' \<noteq> None)"
  by (simp add: map_of_eq_None_iff)

lemma tree_truthy_iff: "tree_of (Suc d) h v = Some t \<Longrightarrow> truthy v = tree_truthy t"
  by (cases v) (auto elim!: tree_of_ref_cases)

lemma tree_primitive_val: "tree_of d h v = Some t \<Longrightarrow> tree_primitive t \<Longrightarrow> (\<forall>a. v \<noteq> JRef a)"
  by (cases d) (auto elim!: tree_of_ref_cases)

lemma tree_of_prim_indep:
  "\<forall>a. v \<noteq> JRef a \<Longrightarrow> tree_of (Suc d) h v = Some t \<Longrightarrow> tree_of (Suc d') h' v = Some t"
  by (cases v) auto

lemma tree_of_pos: "tree_of d h v = Some t \<Longrightarrow> \<exists>d'. d = Suc d'"
  by (cases d) auto

lemma tree_array_val:
  assumes "tree_of d h v = Some (TArray ts)"
  obtains a d' xs where "v = JRef a" "d = Suc d'" "a < length h" "h ! a = JArray xs"
    "list_all2 (\<lambda>x t. tree_of d' h x = Some t) xs ts"
proof -
  from assms obtain d' where d: "d = Suc d'" by (auto dest: tree_of_pos)
  from assms d obtain a where v: "v = JRef a" by (cases v) auto
  from assms[unfolded d v] show ?thesis
    by (cases rule: tree_of_ref_cases) (use that d v in auto)
qed

lemma tree_object_val:
  assumes "tree_of d h v = Some (TObject tps)"
  obtains a d' ps pts where "v = JRef a" "d = Suc d'" "a < length h" "h ! a = JObject ps"
    "tps = zip (map fst ps) pts" "list_all2 (\<lambda>p t. tree_of d' h (snd p) = Some t) ps pts"
proof -
  from assms obtain d' where d: "d = Suc d'" by (auto dest: tree_of_pos)
  from assms d obtain a where v: "v = JRef a" by (cases v) auto
  from assms[unfolded d v] show ?thesis
    by (cases rule: tree_of_ref_cases) (use that d v in auto)
qed

lemma flatten_test_short:
  assumes "a < length h" "h ! a = JArray xs" "length xs < 2"
  shows "flatten_test (h @ ext) (JRef a) = Inr False"
  using assms by (simp add: flatten_test_def index_member_def nth_append)

lemma flatten_test_payload:
  assumes "a < length h" "h ! a = JArray (xk # xp # xrest)"
  shows "flatten_test (h @ ext) (JRef a) =
           (if \<not> truthy xp then Inr False
            else case has_property (h @ ext) ''formula'' xp of
                   Inl e \<Rightarrow> Inl e
                 | Inr present \<Rightarrow>
                     Inr (present \<and>
                          truthy (opt_member (h @ ext) (get_prop (h @ ext) xp ''formula'') ''formula'')))"
  using assms by (simp add: flatten_test_def index_member_def nth_append)

lemma flattened_no_nested: "nested_formula t = None \<Longrightarrow> flattened t = t"
  by (simp add: flattened_def)

lemma nested_formula_payload:
  "nested_formula (TArray (k # p # rest)) =
     (case p of TObject ps \<Rightarrow>
        (case map_of ps ''formula'' of Some (TObject qs) \<Rightarrow> map_of qs ''formula'' | _ \<Rightarrow> None)
      | _ \<Rightarrow> None)"
  by (cases p) simp_all

lemma test_analysis:
  assumes a: "a < length h" and cell: "h ! a = JArray xs"
    and trees: "list_all2 (\<lambda>x t. tree_of d1 h x = Some t) xs ts"
    and rf: "roll_field (TArray ts)"
  obtains
    (plain) "\<And>ext. flatten_test (h @ ext) (JRef a) = Inr False" "flattened (TArray ts) = TArray ts"
  | (nested) xk b xrest k pts rest ps v tv d3 where
      "xs = xk # JRef b # xrest" "ts = k # TObject (zip (map fst ps) pts) # rest"
      "d1 = Suc (Suc d3)"
      "b < length h" "h ! b = JObject ps"
      "list_all2 (\<lambda>p t. tree_of (Suc d3) h (snd p) = Some t) ps pts"
      "\<And>ext. flatten_test (h @ ext) (JRef a) = Inr True"
      "\<And>ext. get_prop (h @ ext) (get_prop (h @ ext) (JRef b) ''formula'') ''formula'' = v"
      "\<forall>x. v \<noteq> JRef x" "\<And>x hh. tree_of (Suc x) hh v = Some tv"
      "flattened (TArray ts) =
         TArray (k # TObject (AList.update ''formula'' tv (zip (map fst ps) pts)) # rest)"
proof (cases "length xs < 2")
  case True
  with trees have "length ts < 2" by (auto dest: list_all2_lengthD)
  then have "nested_formula (TArray ts) = None"
    by (cases ts; cases "tl ts") auto
  with flatten_test_short[OF a cell True] plain show ?thesis
    by (simp add: flattened_no_nested)
next
  case False
  then obtain xk xp xrest where xs: "xs = xk # xp # xrest"
    by (cases xs; cases "tl xs") auto
  with trees obtain k p rest where ts: "ts = k # p # rest"
    and tp: "tree_of d1 h xp = Some p"
    by (auto simp: list_all2_Cons1)
  from rf ts have pok: "payload_ok p"
    and prim: "case nested_formula (TArray ts) of Some v \<Rightarrow> tree_primitive v | None \<Rightarrow> True"
    by simp_all
  from tp obtain d2 where d1: "d1 = Suc d2" by (auto dest: tree_of_pos)
  note ft = flatten_test_payload[OF a cell[unfolded xs]]
  note tru = tree_truthy_iff[OF tp[unfolded d1]]
  show ?thesis
  proof (cases p)
    case (TArray ys)
    from tp[unfolded TArray] obtain b where xp: "xp = JRef b" and b: "b < length h"
      and bc: "\<exists>zs. h ! b = JArray zs"
      by (rule tree_array_val) auto
    from bc obtain zs where bz: "h ! b = JArray zs" by blast
    have "has_property (h @ ext) ''formula'' xp = Inr False" for ext
      unfolding xp using b bz by (intro has_property_array) (simp_all add: nth_append)
    then have "flatten_test (h @ ext) (JRef a) = Inr False" for ext
      unfolding ft by simp
    moreover have "flattened (TArray ts) = TArray ts"
      unfolding ts TArray by (simp add: flattened_def)
    ultimately show ?thesis by (rule plain)
  next
    case (TObject tps)
    from tp[unfolded TObject d1] obtain b ps pts where xp: "xp = JRef b" and b: "b < length h"
      and bc: "h ! b = JObject ps" and tps: "tps = zip (map fst ps) pts"
      and ptrees: "list_all2 (\<lambda>p t. tree_of d2 h (snd p) = Some t) ps pts"
      by (rule tree_object_val) auto
    have hp: "has_property (h @ ext) ''formula'' xp = Inr (map_of ps ''formula'' \<noteq> None)" for ext
      unfolding xp using b bc by (intro has_property_object) (simp_all add: nth_append)
    have gp: "get_prop (h @ ext) xp ''formula'' =
                (case map_of ps ''formula'' of Some x \<Rightarrow> x | None \<Rightarrow> JUndefined)" for ext
      unfolding xp using b bc by (simp add: nth_append)
    note rel = map_of_rel[of "\<lambda>x t. tree_of d2 h x = Some t", OF ptrees, of "''formula''"]
    show ?thesis
    proof (cases "map_of ps ''formula''")
      case None
      with rel have "map_of tps ''formula'' = None" unfolding tps by simp
      then have "flattened (TArray ts) = TArray ts"
        unfolding ts TObject by (simp add: flattened_def)
      moreover have "flatten_test (h @ ext) (JRef a) = Inr False" for ext
        unfolding ft hp using None by simp
      ultimately show ?thesis using plain by blast
    next
      case (Some fm)
      with rel obtain tfm where tfm: "map_of tps ''formula'' = Some tfm"
        and tf: "tree_of d2 h fm = Some tfm"
        unfolding tps by (auto simp: option_rel_Some1)
      from tf obtain d3 where d2: "d2 = Suc d3" by (auto dest: tree_of_pos)
      have ft': "flatten_test (h @ ext) (JRef a) =
                   Inr (truthy (opt_member (h @ ext) fm ''formula''))" for ext
        unfolding ft hp gp using Some xp by simp
      have nf: "nested_formula (TArray ts) =
                  (case tfm of TObject qs \<Rightarrow> map_of qs ''formula'' | _ \<Rightarrow> None)"
        unfolding ts TObject using tfm by (simp split: jstree.splits)
      show ?thesis
      proof (cases tfm)
        case (TObject tqs)
        from tf[unfolded TObject d2] obtain e qs qts where fm: "fm = JRef e" and e: "e < length h"
          and ec: "h ! e = JObject qs" and tqs: "tqs = zip (map fst qs) qts"
          and qtrees: "list_all2 (\<lambda>p t. tree_of d3 h (snd p) = Some t) qs qts"
          by (rule tree_object_val) auto
        have om: "opt_member (h @ ext) fm ''formula'' =
                    (case map_of qs ''formula'' of Some x \<Rightarrow> x | None \<Rightarrow> JUndefined)" for ext
          unfolding fm opt_member_def using e ec by (simp add: nth_append)
        note rel2 = map_of_rel[of "\<lambda>x t. tree_of d3 h x = Some t", OF qtrees, of "''formula''"]
        show ?thesis
        proof (cases "map_of qs ''formula''")
          case None
          with rel2 have "map_of tqs ''formula'' = None" unfolding tqs by simp
          with nf TObject have "flattened (TArray ts) = TArray ts"
            by (simp add: flattened_def)
          moreover have "flatten_test (h @ ext) (JRef a) = Inr False" for ext
            unfolding ft' om using None by simp
          ultimately show ?thesis using plain by blast
        next
          case sv: (Some v)
          with rel2 obtain tv where tv: "map_of tqs ''formula'' = Some tv"
            and tvt: "tree_of d3 h v = Some tv"
            unfolding tqs by (auto simp: option_rel_Some1)
          from tvt obtain d4 where d3: "d3 = Suc d4" by (auto dest: tree_of_pos)
          from nf TObject tv have nfv: "nested_formula (TArray ts) = Some tv" by simp
          have tt: "truthy v = tree_truthy tv" using tvt[unfolded d3] by (rule tree_truthy_iff)
          show ?thesis
          proof (cases "truthy v")
            case False
            with nfv tt have "flattened (TArray ts) = TArray ts" by (simp add: flattened_def)
            moreover have "flatten_test (h @ ext) (JRef a) = Inr False" for ext
              unfolding ft' om using sv False by simp
            ultimately show ?thesis using plain by blast
          next
            case True
            from prim nfv have tprim: "tree_primitive tv" by simp
            with tvt have vprim: "\<forall>x. v \<noteq> JRef x" by (rule tree_primitive_val)
            have 1: "xs = xk # JRef b # xrest" using xs xp by simp
            have 2: "ts = k # TObject (zip (map fst ps) pts) # rest"
              using ts \<open>p = TObject tps\<close> tps by simp
            have 7: "flatten_test (h @ ext) (JRef a) = Inr True" for ext
              unfolding ft' om using sv True by simp
            have 8: "get_prop (h @ ext) (get_prop (h @ ext) (JRef b) ''formula'') ''formula'' = v" for ext
              using gp[of ext] om[of ext] Some sv fm xp by (simp add: opt_member_def)
            have 10: "tree_of (Suc x) hh v = Some tv" for x hh
              using vprim tvt[unfolded d3] by (rule tree_of_prim_indep)
            have 11: "flattened (TArray ts) =
               TArray (k # TObject (AList.update ''formula'' tv (zip (map fst ps) pts)) # rest)"
              using nfv tt True unfolding 2 by (simp add: flattened_def)
            from 1 2 d1[unfolded d2] b bc ptrees[unfolded d2] 7 8 vprim 10 11
            show ?thesis by (rule nested)
          qed
        qed
      next
        case (TArray tzs)
        from tf[unfolded TArray] obtain e zs where fm: "fm = JRef e" and e: "e < length h"
          and ec: "h ! e = JArray zs"
          by (rule tree_array_val) auto
        have "opt_member (h @ ext) fm ''formula'' = JUndefined" for ext
          unfolding fm opt_member_def using e ec by (simp add: nth_append)
        then have "flatten_test (h @ ext) (JRef a) = Inr False" for ext
          unfolding ft' by simp
        moreover from nf TArray have "flattened (TArray ts) = TArray ts"
          by (simp add: flattened_def)
        ultimately show ?thesis using plain by blast
      qed (use tf d2 nf ft' plain in
            \<open>(cases fm; auto simp: opt_member_def flattened_def elim!: tree_of_ref_cases)+\<close>)
    qed
  qed (use tp d1 pok tru ft ts plain in
        \<open>(cases xp; auto simp: flattened_def elim!: tree_of_ref_cases)+\<close>)
qed

subsection \<open>The callback on one field, and on all of them\<close>

lemma local_treeD:
  "local_tree d n ext v t \<Longrightarrow> length hx = n \<Longrightarrow> tree_of d (hx @ ext @ sfx) v = Some t"
  by (simp add: local_tree_def)

lemma list_all2_local_treeD:
  "list_all2 (local_tree d n ext) ys ts \<Longrightarrow> length hx = n \<Longrightarrow>
     list_all2 (\<lambda>y t. tree_of d (hx @ ext @ sfx) y = Some t) ys ts"
  by (auto elim!: list_all2_mono simp: local_tree_def)

lemma field_copied:
  assumes tr: "tree_of d h f = Some t"
    and test: "\<And>ext. flatten_test (h @ ext) f = Inr False"
  shows "\<exists>h' g. deepClone d h f = Inr (h', g) \<and> flag_field d h f = Inr (h', g) \<and>
           tree_of d h' g = Some t"
proof -
  from clone_tree[OF tr] obtain ext g where dc: "deepClone d h f = Inr (h @ ext, g)"
    and lt: "local_tree d (length h) ext g t" by blast
  from local_treeD[OF lt, of h "[]"] have "tree_of d (h @ ext) g = Some t" by simp
  moreover have "flag_field d h f = Inr (h @ ext, g)"
    unfolding flag_field_def using dc test[of ext] by simp
  ultimately show ?thesis using dc by blast
qed

lemma flag_field_flatten_step:
  assumes "deepClone d h f = Inr (h1, g)" "flatten_test h1 f = Inr True"
    "get_index h1 g 1 = JRef c"
  shows "flag_field d h f =
           Inr (set_prop h1 c ''formula''
                  (get_prop h1 (get_prop h1 (get_index h1 f 1) ''formula'') ''formula''), g)"
proof -
  from assms(3) have "\<not> nullish g" by (cases g) auto
  with assms show ?thesis unfolding flag_field_def by (simp add: index_member_def)
qed

lemma field_flattened:
  assumes a: "a < length h" and cell: "h ! a = JArray (xk # JRef b # xrest)"
    and tk: "tree_of (Suc d2) h xk = Some k"
    and trest: "list_all2 (\<lambda>x t. tree_of (Suc d2) h x = Some t) xrest rest"
    and b: "b < length h" and bc: "h ! b = JObject ps"
    and ptrees: "list_all2 (\<lambda>p t. tree_of d2 h (snd p) = Some t) ps pts"
    and test: "\<And>ext. flatten_test (h @ ext) (JRef a) = Inr True"
    and val: "\<And>ext. get_prop (h @ ext) (get_prop (h @ ext) (JRef b) ''formula'') ''formula'' = v"
    and vt: "\<And>x hh. tree_of (Suc x) hh v = Some tv"
    and d2: "d2 = Suc d3"
  shows "\<exists>h' g. flag_field (Suc (Suc d2)) h (JRef a) = Inr (h', g) \<and>
           tree_of (Suc (Suc d2)) h' g =
             Some (TArray (k # TObject (AList.update ''formula'' tv (zip (map fst ps) pts)) # rest))"
proof -
  let ?d1 = "Suc d2"
  \<comment> \<open>the clone of the kind\<close>
  from clone_tree[OF tk] obtain e0 y0 where c0: "deepClone ?d1 h xk = Inr (h @ e0, y0)"
    and l0: "local_tree ?d1 (length h) e0 y0 k" by blast
  let ?h1 = "h @ e0"
  \<comment> \<open>the clone of the payload\<close>
  from ptrees have "list_all2 (\<lambda>x t. tree_of d2 ?h1 x = Some t) (map snd ps) pts"
    by (auto simp: list_all2_map1 tree_of_append elim!: list_all2_mono)
  from clone_trees[OF this] obtain e1 pys where
    c1: "map_heap (deepClone d2) ?h1 (map snd ps) = Inr (?h1 @ e1, pys)"
    and l1: "list_all2 (local_tree d2 (length ?h1) e1) pys pts" by blast
  from l1 ptrees have len: "length pys = length ps" "length pts = length ps"
    by (auto dest!: list_all2_lengthD)
  let ?cps = "zip (map fst ps) pys"
  let ?p' = "length (?h1 @ e1)"
  let ?h2 = "(?h1 @ e1) @ [JObject ?cps]"
  have cp: "deepClone ?d1 ?h1 (JRef b) = Inr (?h2, JRef ?p')"
    using b bc c1 by (simp add: alloc_def nth_append)
  \<comment> \<open>the clones of the other elements\<close>
  from trest have "list_all2 (\<lambda>x t. tree_of ?d1 ?h2 x = Some t) xrest rest"
    by (auto simp: tree_of_append simp del: append_assoc elim!: list_all2_mono)
  from clone_trees[OF this] obtain e2 yrest where
    c2: "map_heap (deepClone ?d1) ?h2 xrest = Inr (?h2 @ e2, yrest)"
    and l2: "list_all2 (local_tree ?d1 (length ?h2) e2) yrest rest" by blast
  let ?ys = "y0 # JRef ?p' # yrest"
  let ?g = "JRef (length (?h2 @ e2))"
  let ?hc = "(?h2 @ e2) @ [JArray ?ys]"
  have mh: "map_heap (deepClone ?d1) h (xk # JRef b # xrest) = Inr (?h2 @ e2, ?ys)"
    using c0 cp c2 by simp
  have dc: "deepClone (Suc ?d1) h (JRef a) = Inr (?hc, ?g)"
    using a cell mh by (simp add: alloc_def)
  \<comment> \<open>the assignment\<close>
  obtain ext where hc: "?hc = h @ ext" by (metis append.assoc)
  have gi: "get_index ?hc ?g 1 = JRef ?p'"
    by (simp add: nth_append)
  have fi: "get_index ?hc (JRef a) 1 = JRef b"
    using a cell by (simp add: nth_append)
  have test': "flatten_test ?hc (JRef a) = Inr True"
    using test[of ext] unfolding hc .
  have val': "get_prop ?hc (get_prop ?hc (get_index ?hc (JRef a) 1) ''formula'') ''formula'' = v"
    unfolding fi using val[of ext] unfolding hc .
  let ?newps = "AList.update ''formula'' v ?cps"
  let ?H = "(?h1 @ e1) @ [JObject ?newps] @ e2 @ [JArray ?ys]"
  have sp: "set_prop ?hc ?p' ''formula'' v = ?H"
  proof -
    have "?hc = (?h1 @ e1) @ JObject ?cps # (e2 @ [JArray ?ys])" by simp
    then have "?hc[?p' := JObject ?newps] = ?H"
      by (metis list_update_length append_Cons append_Nil)
    moreover have "?p' < length ?hc" "?hc ! ?p' = JObject ?cps"
      by (simp_all add: nth_append)
    ultimately show ?thesis by (simp add: set_prop_def)
  qed
  have ff: "flag_field (Suc ?d1) h (JRef a) = Inr (?H, ?g)"
    using flag_field_flatten_step[OF dc test' gi] unfolding val' sp .
  \<comment> \<open>the content of the result\<close>
  have t0: "tree_of ?d1 ?H y0 = Some k"
    using local_treeD[OF l0, of h "e1 @ [JObject ?newps] @ e2 @ [JArray ?ys]"] by simp
  have tps: "list_all2 (\<lambda>y t. tree_of d2 ?H y = Some t) pys pts"
    using list_all2_local_treeD[OF l1, of ?h1 "[JObject ?newps] @ e2 @ [JArray ?ys]"] by simp
  then have "list_all2 (\<lambda>p t. tree_of d2 ?H (snd p) = Some t) ?cps pts"
    using len by (auto simp: list_all2_conv_all_nth)
  from update_rel[of "\<lambda>x t. tree_of d2 ?H x = Some t", OF this, of v tv "''formula''"]
    vt[of d3 ?H] d2
  obtain pts' where u1: "AList.update ''formula'' tv (zip (map fst ?cps) pts)
                          = zip (map fst ?newps) pts'"
    and u2: "list_all2 (\<lambda>p t. tree_of d2 ?H (snd p) = Some t) ?newps pts'" by auto
  have mf: "map fst ?cps = map fst ps" using len by simp
  have pc: "?p' < length ?H" "?H ! ?p' = JObject ?newps"
    by (simp_all add: nth_append)
  have t1: "tree_of ?d1 ?H (JRef ?p') =
              Some (TObject (AList.update ''formula'' tv (zip (map fst ps) pts)))"
    using u1 u2 unfolding mf tree_of_object[OF pc] by blast
  have t2: "list_all2 (\<lambda>y t. tree_of ?d1 ?H y = Some t) yrest rest"
    using list_all2_local_treeD[OF l2, of "(?h1 @ e1) @ [JObject ?newps]" "[JArray ?ys]"]
    by simp
  have gc: "length (?h2 @ e2) < length ?H" "?H ! length (?h2 @ e2) = JArray ?ys"
    by (simp_all add: nth_append)
  have "tree_of (Suc ?d1) ?H ?g =
          Some (TArray (k # TObject (AList.update ''formula'' tv (zip (map fst ps) pts)) # rest))"
    unfolding tree_of_array[OF gc] using t0 t1 t2 by simp
  with ff show ?thesis by blast
qed

lemma region_closed_top: "region_closed (length h) h"
  by (simp add: region_closed_def)

lemma flag_field_fresh:
  assumes ff: "flag_field d h f = Inr (h', g)" and n: "n \<le> length h" and rc: "region_closed n h"
    and v: "\<And>ext. val_fresh n (get_prop (h @ ext)
                (get_prop (h @ ext) (get_index (h @ ext) f 1) ''formula'') ''formula'')"
  shows "region_closed n h' \<and> val_fresh n g"
  using ff
proof (cases rule: flag_field_cases)
  case copied
  from deepClone_fresh[OF copied(1) n rc] show ?thesis .
next
  case (flattened h1 c)
  from deepClone_fresh[OF flattened(1) n rc] have r1: "region_closed n h1" and vg: "val_fresh n g"
    by simp_all
  from deepClone_prefix[OF flattened(1)] obtain ext where "h1 = h @ ext"
    by (auto simp: prefix_def)
  with v[of ext] have "val_fresh n (get_prop h1 (get_prop h1 (get_index h1 f 1) ''formula'') ''formula'')"
    by simp
  from set_prop_fresh[OF r1 this] vg flattened(4) show ?thesis by simp
qed

lemma field_serialised:
  assumes tr: "tree_of d h f = Some t" and rf: "roll_field t"
    and n: "n \<le> length h" and rc: "region_closed n h"
  shows "\<exists>h' g. flag_field d h f = Inr (h', g) \<and> prefix h h' \<and>
           tree_of d h' g = Some (flattened t) \<and> region_closed n h' \<and> val_fresh n g"
proof -
  from rf obtain ts where t: "t = TArray ts" by (cases t) auto
  from tr[unfolded t] obtain a d1 xs where f: "f = JRef a" and d: "d = Suc d1"
    and a: "a < length h" and cell: "h ! a = JArray xs"
    and trees: "list_all2 (\<lambda>x t. tree_of d1 h x = Some t) xs ts"
    by (rule tree_array_val)
  from a cell trees rf[unfolded t]
  have "\<exists>h' g. flag_field d h f = Inr (h', g) \<and> tree_of d h' g = Some (flattened t) \<and>
          region_closed n h' \<and> val_fresh n g"
  proof (cases rule: test_analysis)
    case plain
    from field_copied[OF tr, unfolded f, OF plain(1)] plain(2) obtain h' g where
      dc: "deepClone d h (JRef a) = Inr (h', g)"
      and ff: "flag_field d h (JRef a) = Inr (h', g)" and tg: "tree_of d h' g = Some (flattened t)"
      unfolding t by auto
    from deepClone_fresh[OF dc n rc] ff tg show ?thesis unfolding f by blast
  next
    case (nested xk b xrest k pts rest ps v tv d3)
    from trees[unfolded nested(1,2,3)] have tk: "tree_of (Suc (Suc d3)) h xk = Some k"
      and trest: "list_all2 (\<lambda>x t. tree_of (Suc (Suc d3)) h x = Some t) xrest rest"
      by (simp_all)
    from field_flattened[OF a cell[unfolded nested(1)] tk trest nested(4,5,6,7,8,10) refl]
    obtain h' g where ff: "flag_field d h f = Inr (h', g)"
      and tg: "tree_of d h' g = Some (flattened t)"
      unfolding f d nested(3) t nested(11) by blast
    have "val_fresh n (get_prop (h @ ext)
                (get_prop (h @ ext) (get_index (h @ ext) f 1) ''formula'') ''formula'')" for ext
    proof -
      have "get_index (h @ ext) f 1 = JRef b"
        unfolding f using a cell nested(1) by (simp add: nth_append)
      with nested(8)[of ext] nested(9) show ?thesis by (simp add: val_fresh_def)
    qed
    from flag_field_fresh[OF ff n rc this] ff tg show ?thesis by blast
  qed
  then obtain h' g where ff: "flag_field d h f = Inr (h', g)"
    and rest: "tree_of d h' g = Some (flattened t)" "region_closed n h'" "val_fresh n g"
    by blast
  from flag_field_prefix[OF ff] ff rest show ?thesis by blast
qed

lemma fields_serialised:
  assumes "list_all2 (\<lambda>f t. tree_of d h f = Some t \<and> roll_field t) fs ts"
    and "n \<le> length h" and "region_closed n h"
  shows "\<exists>h' gs. map_heap (flag_field d) h fs = Inr (h', gs) \<and> prefix h h' \<and>
           list_all2 (\<lambda>g t. tree_of d h' g = Some (flattened t)) gs ts \<and>
           region_closed n h' \<and> (\<forall>g \<in> set gs. val_fresh n g)"
  using assms
proof (induction fs arbitrary: h ts)
  case Nil
  then show ?case by simp
next
  case (Cons f fs)
  from Cons.prems(1) obtain t ts' where ts: "ts = t # ts'"
    and tr: "tree_of d h f = Some t" and rf: "roll_field t"
    and rest: "list_all2 (\<lambda>f t. tree_of d h f = Some t \<and> roll_field t) fs ts'"
    by (auto simp: list_all2_Cons1)
  from field_serialised[OF tr rf Cons.prems(2,3)] obtain h1 g where
    ff: "flag_field d h f = Inr (h1, g)" and p1: "prefix h h1"
    and tg: "tree_of d h1 g = Some (flattened t)" and r1: "region_closed n h1"
    and vg: "val_fresh n g" by blast
  from rest p1 have rest1: "list_all2 (\<lambda>f t. tree_of d h1 f = Some t \<and> roll_field t) fs ts'"
    by (auto elim!: list_all2_mono intro: tree_of_prefix)
  from p1 Cons.prems(2) have n1: "n \<le> length h1"
    by (meson order_trans prefix_length_le)
  from Cons.IH[OF rest1 n1 r1] obtain h' gs where
    m: "map_heap (flag_field d) h1 fs = Inr (h', gs)" and p2: "prefix h1 h'"
    and tgs: "list_all2 (\<lambda>g t. tree_of d h' g = Some (flattened t)) gs ts'"
    and r2: "region_closed n h'" and vgs: "\<forall>g \<in> set gs. val_fresh n g" by blast
  have "map_heap (flag_field d) h (f # fs) = Inr (h', g # gs)" using ff m by simp
  moreover have "prefix h h'" using p1 p2 by (rule prefix_order.trans)
  moreover have "tree_of d h' g = Some (flattened t)" using p2 tg by (rule tree_of_prefix)
  ultimately show ?case using tgs r2 vg vgs unfolding ts by auto
qed

subsection \<open>Serialised fields\<close>

lemma flattened_formula_string:
  assumes "map_of ps ''formula'' = Some (TObject qs)" and "map_of qs ''formula'' = Some (TStr s)"
    and "s \<noteq> []"
  shows "flattened (TArray (k # TObject ps # rest)) =
           TArray (k # TObject (AList.update ''formula'' (TStr s) ps) # rest)"
  using assms by (simp add: flattened_def)

lemma list_all2_choice: "\<forall>x \<in> set xs. \<exists>y. P x y \<Longrightarrow> \<exists>ys. list_all2 P xs ys"
proof (induction xs)
  case Nil
  then show ?case by simp
next
  case (Cons x xs)
  then obtain y ys where "P x y" "list_all2 P xs ys" by auto
  then have "list_all2 P (x # xs) (y # ys)" by simp
  then show ?case by blast
qed

lemma flattened_agrees:
  assumes "\<forall>v. nested_formula t = Some v \<longrightarrow>
             v \<noteq> TStr [] \<and> (tree_truthy v \<longrightarrow> (\<exists>s. v = TStr s))"
  shows "flattened t = flattened_spec t"
proof (cases "nested_formula t")
  case None
  then show ?thesis by (simp add: flattened_def flattened_spec_def)
next
  case (Some v)
  with assms have "v \<noteq> TStr []" and "tree_truthy v \<longrightarrow> (\<exists>s. v = TStr s)" by simp_all
  with Some show ?thesis
    by (cases v) (auto simp: flattened_def flattened_spec_def)
qed

subsection \<open>Fields that are not rolls, serialised\<close>

lemmas share_defs = share_heap_def share_card_def text_card_def share_cells_def example_heap_def
  example_heap0_def example_card_def defaultParams_props_def

lemma share_getFlags:
  "getFlags 5 (JStr ''1.0.0'') share_heap share_card =
     Inr (share_heap @ share_cells,
          \<lparr>rsr5e = \<lparr>flag_version = JStr ''1.0.0'', flag_actorId = JUndefined,
                     flag_itemId = JUndefined, flag_tokenId = JUndefined,
                     flag_isCrit = JBool False, flag_properties = [], flag_params = JRef 8,
                     flag_fields = [JRef 24, JRef 27, JRef 30]\<rparr>,
           core_canPopout = True\<rparr>)"
  by (simp add: getFlags_def flag_field_def flatten_test_def index_member_def opt_member_def
        set_prop_def alloc_def share_defs eval_nat_numeral)

lemma text_getFlags: "getFlags 5 (JStr ''1.0.0'') share_heap text_card = Inl TypeError"
  by (simp add: getFlags_def flag_field_def flatten_test_def index_member_def opt_member_def
        set_prop_def alloc_def share_defs eval_nat_numeral)

lemma share_reach_original: "10 \<in> reach share_heap (JRef 13)"
proof -
  have "13 \<in> reach share_heap (JRef 13)" by (rule reach.start) simp
  then have "12 \<in> reach share_heap (JRef 13)"
    by (rule reach.step) (simp_all add: share_defs)
  then have "11 \<in> reach share_heap (JRef 13)"
    by (rule reach.step) (simp_all add: share_defs)
  then show ?thesis
    by (rule reach.step) (simp_all add: share_defs)
qed

lemma share_reach_serialised: "10 \<in> reach (share_heap @ share_cells) (JRef 24)"
proof -
  have "24 \<in> reach (share_heap @ share_cells) (JRef 24)" by (rule reach.start) simp
  then have "23 \<in> reach (share_heap @ share_cells) (JRef 24)"
    by (rule reach.step) (simp_all add: share_defs)
  then show ?thesis
    by (rule reach.step) (simp_all add: share_defs)
qed

lemma share_trees:
  "tree_of 5 share_heap (JRef 16) =
     Some (TArray [TStr ''number'', TObject [(''formula'', TObject [(''formula'', TNum 5)])]])"
  "tree_of 5 (share_heap @ share_cells) (JRef 27) =
     Some (TArray [TStr ''number'', TObject [(''formula'', TNum 5)]])"
  "tree_of 5 share_heap (JRef 19) =
     Some (TArray [TStr ''empty'', TObject [(''formula'', TObject [(''formula'', TStr '''')])]])"
  "tree_of 5 (share_heap @ share_cells) (JRef 30) =
     Some (TArray [TStr ''empty'', TObject [(''formula'', TObject [(''formula'', TStr '''')])]])"
  by (simp_all add: tree_of_ref share_defs eval_nat_numeral)

lemma share_spec:
  "flattened_spec
     (TArray [TStr ''number'', TObject [(''formula'', TObject [(''formula'', TNum 5)])]]) =
   TArray [TStr ''number'', TObject [(''formula'', TObject [(''formula'', TNum 5)])]]"
  "flattened_spec
     (TArray [TStr ''empty'', TObject [(''formula'', TObject [(''formula'', TStr '''')])]]) =
   TArray [TStr ''empty'', TObject [(''formula'', TStr '''')]]"
  by (simp_all add: flattened_spec_def)

text \<open>
  Claim C4 as stated speaks of every card, and of serialised fields that share no reference
  with the originals. On the card with the fields \<open>["other", {formula: {formula: {x:
  1}}}]\<close>, \<open>["number", {formula: {formula: 5}}]\<close> and \<open>["empty", {formula: {formula:
  ""}}]\<close>, \<open>_getFlags\<close> returns the fields at the addresses 24, 27 and 30. The object
  \<open>{x: 1}\<close> at address 10, which existed before the call and belongs to the first field,
  is reachable from its serialised field: the assignment stores
  \<open>field[1].formula.formula\<close>, the original's, in the clone. The second field has no
  \<open>formula\<close> string, yet it is not copied unchanged: its \<open>formula\<close> becomes the number.
  The third has a \<open>formula\<close> string, the empty one, and keeps its \<open>formula\<close> object. On
  the card with the field \<open>["text", 5]\<close> the call throws a TypeError and serialises
  nothing.
\<close>

theorem getFlags_shares_nested_object_counterexample:
  "getFlags 5 (JStr ''1.0.0'') share_heap share_card =
     Inr (share_heap @ share_cells,
          \<lparr>rsr5e = \<lparr>flag_version = JStr ''1.0.0'', flag_actorId = JUndefined,
                     flag_itemId = JUndefined, flag_tokenId = JUndefined,
                     flag_isCrit = JBool False, flag_properties = [], flag_params = JRef 8,
                     flag_fields = [JRef 24, JRef 27, JRef 30]\<rparr>,
           core_canPopout = True\<rparr>) \<and>
   qr_fields share_card = [JRef 13, JRef 16, JRef 19] \<and>
   10 < length share_heap \<and>
   10 \<in> reach share_heap (JRef 13) \<and>
   10 \<in> reach (share_heap @ share_cells) (JRef 24) \<and>
   tree_of 5 share_heap (JRef 16) =
     Some (TArray [TStr ''number'', TObject [(''formula'', TObject [(''formula'', TNum 5)])]]) \<and>
   tree_of 5 (share_heap @ share_cells) (JRef 27) =
     Some (TArray [TStr ''number'', TObject [(''formula'', TNum 5)]]) \<and>
   tree_of 5 share_heap (JRef 19) =
     Some (TArray [TStr ''empty'', TObject [(''formula'', TObject [(''formula'', TStr '''')])]]) \<and>
   tree_of 5 (share_heap @ share_cells) (JRef 30) =
     Some (TArray [TStr ''empty'', TObject [(''formula'', TObject [(''formula'', TStr '''')])]]) \<and>
   getFlags 5 (JStr ''1.0.0'') share_heap text_card = Inl TypeError"
proof -
  have l: "10 < length share_heap" by (simp add: share_defs)
  have f: "qr_fields share_card = [JRef 13, JRef 16, JRef 19]" by (simp add: share_card_def)
  from share_getFlags f l share_reach_original share_reach_serialised share_trees text_getFlags
  show ?thesis by (intro conjI)
qed

text \<open>
  Claim C4, amended: for a card whose fields are arrays \<open>[kind, payload, ...]\<close> of plain
  data (nested less than \<open>d\<close> deep), with a payload that is absent, falsy or an object and
  a nested formula that is a primitive (a string, as the formula of a roll is),
  \<open>_getFlags\<close> returns one serialised field per field, in order. The content of a
  serialised field is the content of the field with the \<open>formula\<close> of its second element
  replaced by the nested formula where there is a truthy one, in particular by the string
  \<open>s\<close> for a second element \<open>{formula: {formula: s}}\<close> with \<open>s\<close> not empty, and it
  is the content of the field as it is where the second element has no nested formula.
  This is what the specification asks for on every field whose nested formula, if there is
  one, is a string that is not empty or a falsy value that is not a string. No object
  reachable from a serialised field existed before the call: nothing is shared with the
  originals.
\<close>

theorem getFlags_flattens_fields:
  assumes "\<forall>f \<in> set (qr_fields q). \<exists>t. tree_of d h f = Some t \<and> roll_field t"
  shows "\<exists>h' fl. getFlags d version h q = Inr (h', fl) \<and>
           length (flag_fields (rsr5e fl)) = length (qr_fields q) \<and>
           (\<forall>i < length (qr_fields q). \<forall>t. tree_of d h (qr_fields q ! i) = Some t \<longrightarrow>
              tree_of d h' (flag_fields (rsr5e fl) ! i) = Some (flattened t) \<and>
              (\<forall>k ps rest qs s.
                 t = TArray (k # TObject ps # rest) \<and> map_of ps ''formula'' = Some (TObject qs) \<and>
                 map_of qs ''formula'' = Some (TStr s) \<and> s \<noteq> [] \<longrightarrow>
                 tree_of d h' (flag_fields (rsr5e fl) ! i) =
                   Some (TArray (k # TObject (AList.update ''formula'' (TStr s) ps) # rest))) \<and>
              (nested_formula t = None \<longrightarrow>
                 tree_of d h' (flag_fields (rsr5e fl) ! i) = Some t) \<and>
              ((\<forall>v. nested_formula t = Some v \<longrightarrow>
                    v \<noteq> TStr [] \<and> (tree_truthy v \<longrightarrow> (\<exists>s. v = TStr s))) \<longrightarrow>
                 tree_of d h' (flag_fields (rsr5e fl) ! i) = Some (flattened_spec t)) \<and>
              (\<forall>a \<in> reach h' (flag_fields (rsr5e fl) ! i). length h \<le> a))"
proof -
  let ?fs = "qr_fields q"
  from assms have "\<exists>ts. list_all2 (\<lambda>f t. tree_of d h f = Some t \<and> roll_field t) ?fs ts"
    by (rule list_all2_choice)
  then obtain ts where ts: "list_all2 (\<lambda>f t. tree_of d h f = Some t \<and> roll_field t) ?fs ts"
    by blast
  from fields_serialised[OF ts order_refl region_closed_top] obtain h' gs where
    m: "map_heap (flag_field d) h ?fs = Inr (h', gs)" and p: "prefix h h'"
    and tg: "list_all2 (\<lambda>g t. tree_of d h' g = Some (flattened t)) gs ts"
    and rc: "region_closed (length h) h'" and vf: "\<forall>g \<in> set gs. val_fresh (length h) g"
    by blast
  define fl where "fl = \<lparr>rsr5e = \<lparr>flag_version = version, flag_actorId = actorId q, flag_itemId = itemId q,
                       flag_tokenId = tokenId q, flag_isCrit = isCrit q,
                       flag_properties = properties q, flag_params = params q,
                       flag_fields = gs\<rparr>,
             core_canPopout = True\<rparr>"
  have gf: "getFlags d version h q = Inr (h', fl)"
    unfolding getFlags_def fl_def using m by simp
  have ff: "flag_fields (rsr5e fl) = gs" by (simp add: fl_def)
  have len: "length gs = length ?fs" "length ts = length ?fs"
    using ts tg by (auto dest!: list_all2_lengthD)
  have main: "tree_of d h' (gs ! i) = Some (flattened t) \<and>
              (\<forall>k ps rest qs s.
                 t = TArray (k # TObject ps # rest) \<and> map_of ps ''formula'' = Some (TObject qs) \<and>
                 map_of qs ''formula'' = Some (TStr s) \<and> s \<noteq> [] \<longrightarrow>
                 tree_of d h' (gs ! i) =
                   Some (TArray (k # TObject (AList.update ''formula'' (TStr s) ps) # rest))) \<and>
              (nested_formula t = None \<longrightarrow> tree_of d h' (gs ! i) = Some t) \<and>
              ((\<forall>v. nested_formula t = Some v \<longrightarrow>
                    v \<noteq> TStr [] \<and> (tree_truthy v \<longrightarrow> (\<exists>s. v = TStr s))) \<longrightarrow>
                 tree_of d h' (gs ! i) = Some (flattened_spec t)) \<and>
              (\<forall>a \<in> reach h' (gs ! i). length h \<le> a)"
    if i: "i < length ?fs" and t: "tree_of d h (?fs ! i) = Some t" for i t
  proof -
    from ts i t have "ts ! i = t" by (auto simp: list_all2_conv_all_nth)
    with tg i len have 1: "tree_of d h' (gs ! i) = Some (flattened t)"
      by (auto simp: list_all2_conv_all_nth)
    from i len vf have fresh: "val_fresh (length h) (gs ! i)" by simp
    have 4: "length h \<le> a" if "a \<in> reach h' (gs ! i)" for a
      using rc fresh that by (rule reach_fresh)
    have 2: "\<forall>k ps rest qs s.
                 t = TArray (k # TObject ps # rest) \<and> map_of ps ''formula'' = Some (TObject qs) \<and>
                 map_of qs ''formula'' = Some (TStr s) \<and> s \<noteq> [] \<longrightarrow>
                 tree_of d h' (gs ! i) =
                   Some (TArray (k # TObject (AList.update ''formula'' (TStr s) ps) # rest))"
      using 1 by (auto simp: flattened_formula_string)
    have 3: "nested_formula t = None \<longrightarrow> tree_of d h' (gs ! i) = Some t"
      using 1 by (auto simp: flattened_no_nested)
    have 5: "(\<forall>v. nested_formula t = Some v \<longrightarrow>
                    v \<noteq> TStr [] \<and> (tree_truthy v \<longrightarrow> (\<exists>s. v = TStr s))) \<longrightarrow>
                 tree_of d h' (gs ! i) = Some (flattened_spec t)"
    proof
      assume "\<forall>v. nested_formula t = Some v \<longrightarrow>
                    v \<noteq> TStr [] \<and> (tree_truthy v \<longrightarrow> (\<exists>s. v = TStr s))"
      then have "flattened t = flattened_spec t" by (rule flattened_agrees)
      with 1 show "tree_of d h' (gs ! i) = Some (flattened_spec t)" by simp
    qed
    from 4 have 6: "\<forall>a \<in> reach h' (gs ! i). length h \<le> a" by blast
    from 1 2 3 5 6 show ?thesis by (intro conjI)
  qed
  from gf len(1)[folded ff] main[folded ff] show ?thesis by blast
qed

subsection \<open>The card with a roll to flatten, serialised\<close>

lemmas attack_defs = attack_heap_def attack_card_def example_heap_def example_heap0_def
  example_card_def defaultParams_props_def

lemma attack_getFlags:
  "getFlags 4 (JStr ''1.0.0'') attack_heap attack_card =
     Inr (attack_heap @
            [JObject [], JArray [JStr ''header'', JRef 13],
             JObject [(''formula'', JStr ''1d20+5'')],
             JObject [(''formula'', JStr ''1d20+5'')],
             JArray [JStr ''attack'', JRef 16]],
          \<lparr>rsr5e = \<lparr>flag_version = JStr ''1.0.0'', flag_actorId = JUndefined,
                     flag_itemId = JUndefined, flag_tokenId = JUndefined,
                     flag_isCrit = JBool False, flag_properties = [], flag_params = JRef 8,
                     flag_fields = [JRef 14, JRef 17]\<rparr>,
           core_canPopout = True\<rparr>)"
  by (simp add: getFlags_def flag_field_def flatten_test_def index_member_def opt_member_def
        set_prop_def alloc_def attack_defs eval_nat_numeral)

lemma attack_trees:
  "tree_of 4 attack_heap (JRef 3) = Some (TArray [TStr ''header'', TObject []])"
  "tree_of 4 attack_heap (JRef 12) =
     Some (TArray [TStr ''attack'',
                   TObject [(''formula'', TObject [(''formula'', TStr ''1d20+5'')])]])"
  by (simp_all add: tree_of_ref attack_defs eval_nat_numeral)

text \<open>
  Claim C4, amended, on the card with the field \<open>["attack", {formula: {formula: "1d20+5"}}]\<close>.
\<close>

theorem getFlags_flattens_fields_witness:
  "qr_fields attack_card = [JRef 3, JRef 12] \<and>
   (\<exists>t. tree_of 4 attack_heap (JRef 3) = Some t \<and> roll_field t) \<and>
   (\<exists>t. tree_of 4 attack_heap (JRef 12) = Some t \<and> roll_field t) \<and>
   (\<exists>h' fl. getFlags 4 (JStr ''1.0.0'') attack_heap attack_card = Inr (h', fl) \<and>
      tree_of 4 h' (flag_fields (rsr5e fl) ! 0) = Some (TArray [TStr ''header'', TObject []]) \<and>
      tree_of 4 h' (flag_fields (rsr5e fl) ! 1) =
        Some (TArray [TStr ''attack'', TObject [(''formula'', TStr ''1d20+5'')]]) \<and>
      tree_of 4 h' (flag_fields (rsr5e fl) ! 1) =
        Some (flattened_spec
               (TArray [TStr ''attack'',
                        TObject [(''formula'', TObject [(''formula'', TStr ''1d20+5'')])]])) \<and>
      (\<forall>a \<in> reach h' (flag_fields (rsr5e fl) ! 1). length attack_heap \<le> a))"
proof -
  have fs: "qr_fields attack_card = [JRef 3, JRef 12]"
    by (simp add: attack_card_def)
  have hyp: "\<forall>f \<in> set (qr_fields attack_card). \<exists>t. tree_of 4 attack_heap f = Some t \<and> roll_field t"
    unfolding fs by (simp add: attack_trees)
  from getFlags_flattens_fields[OF hyp, of "JStr ''1.0.0''"] obtain h' fl where
    gf: "getFlags 4 (JStr ''1.0.0'') attack_heap attack_card = Inr (h', fl)"
    and all: "\<forall>i < length (qr_fields attack_card). \<forall>t.
        tree_of 4 attack_heap (qr_fields attack_card ! i) = Some t \<longrightarrow>
              tree_of 4 h' (flag_fields (rsr5e fl) ! i) = Some (flattened t) \<and>
              (\<forall>k ps rest qs s.
                 t = TArray (k # TObject ps # rest) \<and> map_of ps ''formula'' = Some (TObject qs) \<and>
                 map_of qs ''formula'' = Some (TStr s) \<and> s \<noteq> [] \<longrightarrow>
                 tree_of 4 h' (flag_fields (rsr5e fl) ! i) =
                   Some (TArray (k # TObject (AList.update ''formula'' (TStr s) ps) # rest))) \<and>
              (nested_formula t = None \<longrightarrow>
                 tree_of 4 h' (flag_fields (rsr5e fl) ! i) = Some t) \<and>
              ((\<forall>v. nested_formula t = Some v \<longrightarrow>
                    v \<noteq> TStr [] \<and> (tree_truthy v \<longrightarrow> (\<exists>s. v = TStr s))) \<longrightarrow>
                 tree_of 4 h' (flag_fields (rsr5e fl) ! i) = Some (flattened_spec t)) \<and>
              (\<forall>a \<in> reach h' (flag_fields (rsr5e fl) ! i). length attack_heap \<le> a)"
    by (elim exE conjE) (rule that)
  have i0: "(0::nat) < length (qr_fields attack_card)" and i1: "(1::nat) < length (qr_fields attack_card)"
    unfolding fs by simp_all
  have t0: "tree_of 4 attack_heap (qr_fields attack_card ! 0) = Some (TArray [TStr ''header'', TObject []])"
    unfolding fs by (simp add: attack_trees)
  have t1: "tree_of 4 attack_heap (qr_fields attack_card ! 1) =
     Some (TArray [TStr ''attack'',
                   TObject [(''formula'', TObject [(''formula'', TStr ''1d20+5'')])]])"
    unfolding fs by (simp add: attack_trees)
  note a0 = all[rule_format, OF i0 t0]
  from a0[THEN conjunct1]
  have r0: "tree_of 4 h' (flag_fields (rsr5e fl) ! 0) = Some (TArray [TStr ''header'', TObject []])"
    by (simp add: flattened_def)
  note a1 = all[rule_format, OF i1 t1]
  from a1[THEN conjunct1] have r1: "tree_of 4 h' (flag_fields (rsr5e fl) ! 1) =
        Some (TArray [TStr ''attack'', TObject [(''formula'', TStr ''1d20+5'')]])"
    by (simp add: flattened_def)
  have r2: "\<forall>a \<in> reach h' (flag_fields (rsr5e fl) ! 1). length attack_heap \<le> a"
    by (rule a1[THEN conjunct2, THEN conjunct2, THEN conjunct2, THEN conjunct2])
  have h3: "\<exists>t. tree_of 4 attack_heap (JRef 3) = Some t \<and> roll_field t"
    and h11: "\<exists>t. tree_of 4 attack_heap (JRef 12) = Some t \<and> roll_field t"
    using hyp unfolding fs by simp_all
  have "\<forall>v. nested_formula
              (TArray [TStr ''attack'',
                       TObject [(''formula'', TObject [(''formula'', TStr ''1d20+5'')])]]) =
            Some v \<longrightarrow>
            v \<noteq> TStr [] \<and> (tree_truthy v \<longrightarrow> (\<exists>s. v = TStr s))"
    by simp
  with a1[THEN conjunct2, THEN conjunct2, THEN conjunct2, THEN conjunct1]
  have r3: "tree_of 4 h' (flag_fields (rsr5e fl) ! 1) =
        Some (flattened_spec
               (TArray [TStr ''attack'',
                        TObject [(''formula'', TObject [(''formula'', TStr ''1d20+5'')])]]))"
    by (rule mp)
  from fs h3 h11 gf r0 r1 r3 r2 show ?thesis by blast
qed

subsection \<open>Serialising leaves the card alone\<close>

text \<open>
  Claim C10: \<open>_getFlags\<close> assigns to no property of the instance (the model returns
  no new instance), and every object that existed before the call is unchanged after
  it: the heap of before is a prefix of the heap of after. In particular every field of
  the card has the content it had, also where the serialised copy was flattened.
\<close>

theorem getFlags_leaves_heap:
  assumes "getFlags d version h q = Inr (h', fl)"
  shows "take (length h) h' = h \<and>
         (\<forall>f \<in> set (qr_fields q). \<forall>m t. tree_of m h f = Some t \<longrightarrow> tree_of m h' f = Some t)"
proof -
  from getFlags_prefix[OF assms] have p: "prefix h h'" .
  then have "take (length h) h' = h" by (auto simp: prefix_def)
  with p show ?thesis by (auto intro: tree_of_prefix)
qed

text \<open>
  Claim C10 on the card with a roll to flatten: the field at address 12 still holds the
  nested formula object.
\<close>

theorem getFlags_leaves_heap_witness:
  "\<exists>h' fl. getFlags 4 (JStr ''1.0.0'') attack_heap attack_card = Inr (h', fl) \<and>
      take (length attack_heap) h' = attack_heap \<and>
      tree_of 4 h' (JRef 12) =
        Some (TArray [TStr ''attack'',
                      TObject [(''formula'', TObject [(''formula'', TStr ''1d20+5'')])]])"
proof -
  have m: "JRef 12 \<in> set (qr_fields attack_card)" by (simp add: attack_card_def)
  from getFlags_leaves_heap[OF attack_getFlags] m attack_trees(2)
  have "take (length attack_heap)
          (attack_heap @
            [JObject [], JArray [JStr ''header'', JRef 13],
             JObject [(''formula'', JStr ''1d20+5'')],
             JObject [(''formula'', JStr ''1d20+5'')],
             JArray [JStr ''attack'', JRef 16]]) = attack_heap \<and>
        tree_of 4 (attack_heap @
            [JObject [], JArray [JStr ''header'', JRef 13],
             JObject [(''formula'', JStr ''1d20+5'')],
             JObject [(''formula'', JStr ''1d20+5'')],
             JArray [JStr ''attack'', JRef 16]]) (JRef 12) =
        Some (TArray [TStr ''attack'',
                      TObject [(''formula'', TObject [(''formula'', TStr ''1d20+5'')])]])"
    by blast
  with attack_getFlags show ?thesis by blast
qed

section \<open>Properties of the construction\<close>

subsection \<open>Merging into an object and copying the defaults\<close>

lemma is_plain_update:
  "a < length h \<Longrightarrow> h ! a = JObject ps \<Longrightarrow> is_plain (h[a := JObject ps']) v = is_plain h v"
  by (cases v) (auto simp: nth_list_update)

lemma merge_keys_append:
  "merge_keys M r h a other (ks @ ks') =
     (case merge_keys M r h a other ks of
        Inl e \<Rightarrow> Inl e
      | Inr h1 \<Rightarrow> merge_keys M r h1 a other ks')"
  by (induction ks arbitrary: h) (auto simp: Let_def split: sum.splits)

lemma merge_keys_flat:
  assumes "a < length h" and "h ! a = JObject ps" and "other \<noteq> JRef a" and "distinct ks"
    and "\<forall>k \<in> set ks. \<not> is_plain h (get_prop h (JRef a) k)"
  shows "\<exists>ps'. merge_keys M r h a other ks = Inr (h[a := JObject ps']) \<and>
           map_of ps' = (\<lambda>k. if k \<in> set ks then Some (get_prop h other k) else map_of ps k)"
  using assms
proof (induction ks arbitrary: h ps)
  case Nil
  have "h[a := JObject ps] = h" using Nil by (metis list_update_id)
  then show ?case by (intro exI[of _ ps]) simp
next
  case (Cons k ks)
  let ?v = "get_prop h other k"
  let ?ps1 = "AList.update k ?v ps"
  let ?h1 = "h[a := JObject ?ps1]"
  have sp: "set_prop h a k ?v = ?h1" using Cons.prems by (simp add: set_prop_def)
  have np: "\<not> is_plain h (get_prop h (JRef a) k)" using Cons.prems(5) by simp
  have a1: "a < length ?h1" "?h1 ! a = JObject ?ps1"
    using Cons.prems by simp_all
  have d1: "distinct ks" and kn: "k \<notin> set ks" using Cons.prems(4) by simp_all
  have n1: "\<forall>k' \<in> set ks. \<not> is_plain ?h1 (get_prop ?h1 (JRef a) k')"
  proof
    fix k' assume k': "k' \<in> set ks"
    with kn have ne: "k' \<noteq> k" by auto
    have "get_prop ?h1 (JRef a) k' = get_prop h (JRef a) k'"
      using Cons.prems(1,2) ne by (simp add: update_conv')
    with Cons.prems(5) k' is_plain_update[OF Cons.prems(1,2)]
    show "\<not> is_plain ?h1 (get_prop ?h1 (JRef a) k')" by simp
  qed
  from Cons.IH[OF a1 Cons.prems(3) d1 n1] obtain ps' where
    m: "merge_keys M r ?h1 a other ks = Inr (?h1[a := JObject ps'])"
    and mp: "map_of ps' = (\<lambda>k'. if k' \<in> set ks then Some (get_prop ?h1 other k')
                                   else map_of ?ps1 k')"
    by blast
  have "merge_keys M r h a other (k # ks) = Inr (h[a := JObject ps'])"
    using m sp np by (simp add: Let_def)
  moreover have "map_of ps' = (\<lambda>k'. if k' \<in> set (k # ks) then Some (get_prop h other k') else map_of ps k')"
    unfolding mp using Cons.prems(3)
    by (auto simp: fun_eq_iff get_prop_update_other update_conv')
  ultimately show ?case by blast
qed

lemma duplicate_defaults:
  assumes "dp < length h" and "du < length h"
    and "h ! dp = JObject (defaultParams_props (JRef du))" and "h ! du = JObject []"
  shows "duplicate (Suc (Suc d)) h (JRef dp) =
           Inr (h @ [JObject [], JObject (defaultParams_props (JRef (length h)))],
                JRef (Suc (length h)))"
  using assms
  by (simp add: duplicate_def defaultParams_props_def alloc_def nth_append)

lemma default_prop_not_plain:
  "k \<noteq> ''useCharge'' \<Longrightarrow>
   \<not> is_plain H (case map_of (defaultParams_props uc) k of Some v \<Rightarrow> v | None \<Rightarrow> JUndefined)"
  by (simp add: defaultParams_props_def)

lemma default_useCharge: "map_of (defaultParams_props uc) ''useCharge'' = Some uc"
  by (simp add: defaultParams_props_def)

lemma distinct_own_keys_plain: "is_plain h v \<Longrightarrow> distinct (own_keys h v)"
  by (cases v) (auto split: jsobj.splits)

lemma get_prop_update_ref:
  "b \<noteq> a \<Longrightarrow> get_prop (h[a := ob]) (JRef b) k = get_prop h (JRef b) k"
  by simp

lemma own_keys_update_ref:
  "b \<noteq> a \<Longrightarrow> own_keys (h[a := ob]) (JRef b) = own_keys h (JRef b)"
  by simp

lemma is_plainD:
  "is_plain h v \<Longrightarrow> \<exists>c ps. v = JRef c \<and> c < length h \<and> h ! c = JObject ps"
  by (cases v) (auto split: jsobj.splits)

lemma mergeObject_into_empty:
  assumes u: "u < length H" and uc: "H ! u = JObject []"
    and v: "is_plain H v" and vu: "v \<noteq> JRef u"
  shows "\<exists>us'. mergeObject (Suc d) True H (JRef u) v = Inr (H[u := JObject us']) \<and>
           map_of us' = (\<lambda>k. if k \<in> set (own_keys H v) then Some (get_prop H v k) else None)"
proof -
  have np: "\<forall>k \<in> set (own_keys H v). \<not> is_plain H (get_prop H (JRef u) k)"
    using u uc by simp
  from merge_keys_flat[OF u uc vu distinct_own_keys_plain[OF v] np, of "mergeObject d" True]
  obtain us' where m: "merge_keys (mergeObject d) True H u v (own_keys H v) = Inr (H[u := JObject us'])"
    and mp: "map_of us' = (\<lambda>k. if k \<in> set (own_keys H v) then Some (get_prop H v k)
                                  else map_of [] k)" by blast
  from v have tv: "truthy v" "is_object H v" by (auto dest!: is_plainD)
  have "mergeObject (Suc d) True H (JRef u) v = Inr (H[u := JObject us'])"
    using m u uc tv by simp
  moreover from mp have "map_of us' =
      (\<lambda>k. if k \<in> set (own_keys H v) then Some (get_prop H v k) else None)"
    by (auto simp: fun_eq_iff)
  ultimately show ?thesis by blast
qed

subsection \<open>Merging the caller's parameters into the copy of the defaults\<close>

lemma get_prop_defaults_cell:
  "a < length H \<Longrightarrow> H ! a = JObject ps \<Longrightarrow>
   get_prop H (JRef a) k = (case map_of ps k of Some v \<Rightarrow> v | None \<Rightarrow> JUndefined)"
  by simp

lemma merge_into_defaults:
  assumes u: "u < length H" and uc: "H ! u = JObject []"
    and a: "a < length H" and ac: "H ! a = JObject (defaultParams_props (JRef u))"
    and ua: "u \<noteq> a"
    and b: "b < length H" and bu: "b \<noteq> u" and ba: "b \<noteq> a" and bp: "is_plain H (JRef b)"
    and vU: "\<forall>c. get_prop H (JRef b) ''useCharge'' = JRef c \<longrightarrow> c \<noteq> u \<and> c \<noteq> a"
  shows "\<exists>us' ps'.
     mergeObject (Suc (Suc d)) True H (JRef a) (JRef b) = Inr (H[u := JObject us', a := JObject ps']) \<and>
     (\<forall>k. map_of ps' k =
        (if k \<in> set (own_keys H (JRef b)) \<and>
            \<not> (k = ''useCharge'' \<and> is_plain H (get_prop H (JRef b) k))
         then Some (get_prop H (JRef b) k)
         else map_of (defaultParams_props (JRef u)) k)) \<and>
     (\<forall>k. map_of us' k =
        (if ''useCharge'' \<in> set (own_keys H (JRef b)) \<and>
            is_plain H (get_prop H (JRef b) ''useCharge'') \<and>
            k \<in> set (own_keys H (get_prop H (JRef b) ''useCharge''))
         then Some (get_prop H (get_prop H (JRef b) ''useCharge'') k)
         else None))"
proof -
  let ?other = "JRef b"
  let ?ks = "own_keys H ?other"
  let ?M = "mergeObject (Suc d)"
  let ?dps = "defaultParams_props (JRef u)"
  let ?v = "get_prop H ?other ''useCharge''"
  have dks: "distinct ?ks" using bp by (rule distinct_own_keys_plain)
  have oa: "?other \<noteq> JRef a" using ba by simp
  have top: "mergeObject (Suc (Suc d)) True H (JRef a) ?other = merge_keys ?M True H a ?other ?ks"
    using a ac b by simp
  have Hu: "H[u := JObject []] = H" using uc by (metis list_update_id)
  show ?thesis
  proof (cases "''useCharge'' \<in> set ?ks")
    case False
    have np: "\<forall>k \<in> set ?ks. \<not> is_plain H (get_prop H (JRef a) k)"
    proof
      fix k assume "k \<in> set ?ks"
      with False have "k \<noteq> ''useCharge''" by auto
      then show "\<not> is_plain H (get_prop H (JRef a) k)"
        unfolding get_prop_defaults_cell[OF a ac] by (rule default_prop_not_plain)
    qed
    from merge_keys_flat[OF a ac oa dks np, of ?M True] obtain ps' where
      m: "merge_keys ?M True H a ?other ?ks = Inr (H[a := JObject ps'])"
      and mp: "map_of ps' = (\<lambda>k. if k \<in> set ?ks then Some (get_prop H ?other k) else map_of ?dps k)"
      by blast
    have 1: "mergeObject (Suc (Suc d)) True H (JRef a) ?other = Inr (H[u := JObject [], a := JObject ps'])"
      unfolding top m Hu ..
    have 2: "\<forall>k. map_of ps' k =
        (if k \<in> set ?ks \<and> \<not> (k = ''useCharge'' \<and> is_plain H (get_prop H ?other k))
         then Some (get_prop H ?other k) else map_of ?dps k)"
      unfolding mp using False by auto
    have 3: "\<forall>k. map_of [] k =
        (if ''useCharge'' \<in> set ?ks \<and> is_plain H ?v \<and> k \<in> set (own_keys H ?v)
         then Some (get_prop H ?v k) else None)"
      using False by simp
    from 1 2 3 show ?thesis by blast
  next
    case True
    then obtain pre post where ks: "?ks = pre @ ''useCharge'' # post"
      by (auto dest: split_list)
    from dks[unfolded ks] have dpre: "distinct pre" and dpost: "distinct post"
      and upre: "''useCharge'' \<notin> set pre" and upost: "''useCharge'' \<notin> set post"
      and disj: "set pre \<inter> set post = {}"
      by auto
    \<comment> \<open>the keys before \<open>useCharge\<close>\<close>
    have np1: "\<forall>k \<in> set pre. \<not> is_plain H (get_prop H (JRef a) k)"
    proof
      fix k assume "k \<in> set pre"
      with upre have "k \<noteq> ''useCharge''" by auto
      then show "\<not> is_plain H (get_prop H (JRef a) k)"
        unfolding get_prop_defaults_cell[OF a ac] by (rule default_prop_not_plain)
    qed
    from merge_keys_flat[OF a ac oa dpre np1, of ?M True] obtain ps1 where
      m1: "merge_keys ?M True H a ?other pre = Inr (H[a := JObject ps1])"
      and mp1: "map_of ps1 = (\<lambda>k. if k \<in> set pre then Some (get_prop H ?other k) else map_of ?dps k)"
      by blast
    let ?H1 = "H[a := JObject ps1]"
    have a1: "a < length ?H1" "?H1 ! a = JObject ps1" using a by simp_all
    have u1: "u < length ?H1" "?H1 ! u = JObject []" using u uc ua by simp_all
    have v1: "get_prop ?H1 ?other ''useCharge'' = ?v" using ba by simp
    have x1: "get_prop ?H1 (JRef a) ''useCharge'' = JRef u"
      using a upre by (simp add: mp1 default_useCharge)
    have xp1: "is_plain ?H1 (JRef u)" using u1 by simp
    have vp1: "is_plain ?H1 ?v = is_plain H ?v" using a ac by (rule is_plain_update)
    \<comment> \<open>the key \<open>useCharge\<close>\<close>
    have "\<exists>us' ps2. merge_keys ?M True ?H1 a ?other [''useCharge''] = Inr (H[u := JObject us', a := JObject ps2]) \<and>
            map_of ps2 = (if is_plain H ?v then map_of ps1 else (map_of ps1)(''useCharge'' \<mapsto> ?v)) \<and>
            (\<forall>k. map_of us' k =
               (if is_plain H ?v \<and> k \<in> set (own_keys H ?v) then Some (get_prop H ?v k) else None))"
    proof (cases "is_plain H ?v")
      case plain: True
      then obtain c where vc: "?v = JRef c" by (auto dest!: is_plainD)
      with vU have cu: "c \<noteq> u" and ca: "c \<noteq> a" by auto
      have vne: "?v \<noteq> JRef u" using vc cu by simp
      from mergeObject_into_empty[OF u1, of ?v d] plain vp1 vne obtain us' where
        mo: "mergeObject (Suc d) True ?H1 (JRef u) ?v = Inr (?H1[u := JObject us'])"
        and mu: "map_of us' = (\<lambda>k. if k \<in> set (own_keys ?H1 ?v) then Some (get_prop ?H1 ?v k) else None)"
        by auto
      have sw: "?H1[u := JObject us'] = H[u := JObject us', a := JObject ps1]"
        using ua by (simp add: list_update_swap)
      have A: "merge_keys ?M True ?H1 a ?other [''useCharge''] = Inr (H[u := JObject us', a := JObject ps1])"
        using plain xp1 mo unfolding sw
        by (simp add: Let_def v1 x1 vp1 del: mergeObject.simps get_prop.simps is_plain.simps)
      have e1: "own_keys ?H1 ?v = own_keys H ?v"
        unfolding vc using ca by (rule own_keys_update_ref)
      have e2: "get_prop ?H1 ?v k = get_prop H ?v k" for k
        unfolding vc using ca by (rule get_prop_update_ref)
      have C: "\<forall>k. map_of us' k =
               (if is_plain H ?v \<and> k \<in> set (own_keys H ?v) then Some (get_prop H ?v k) else None)"
        unfolding mu e1 e2 using plain by (simp del: get_prop.simps own_keys.simps is_plain.simps)
      have B: "map_of ps1 = (if is_plain H ?v then map_of ps1 else (map_of ps1)(''useCharge'' \<mapsto> ?v))"
        using plain by (simp del: get_prop.simps is_plain.simps)
      from A B C show ?thesis by blast
    next
      case notplain: False
      have sp: "set_prop ?H1 a ''useCharge'' ?v = H[a := JObject (AList.update ''useCharge'' ?v ps1)]"
        using a by (simp add: set_prop_def)
      have A: "merge_keys ?M True ?H1 a ?other [''useCharge''] =
              Inr (H[u := JObject [], a := JObject (AList.update ''useCharge'' ?v ps1)])"
        using notplain sp unfolding Hu
        by (simp add: Let_def v1 x1 vp1 del: mergeObject.simps get_prop.simps is_plain.simps)
      have B: "map_of (AList.update ''useCharge'' ?v ps1) =
                 (if is_plain H ?v then map_of ps1 else (map_of ps1)(''useCharge'' \<mapsto> ?v))"
        using notplain by (simp add: update_conv' del: get_prop.simps is_plain.simps)
      have C: "\<forall>k. map_of [] k =
               (if is_plain H ?v \<and> k \<in> set (own_keys H ?v) then Some (get_prop H ?v k) else None)"
        using notplain by (simp del: get_prop.simps own_keys.simps is_plain.simps)
      from A B C show ?thesis by blast
    qed
    then obtain us' ps2 where
      m2: "merge_keys ?M True ?H1 a ?other [''useCharge''] = Inr (H[u := JObject us', a := JObject ps2])"
      and mp2: "map_of ps2 = (if is_plain H ?v then map_of ps1 else (map_of ps1)(''useCharge'' \<mapsto> ?v))"
      and mu: "\<forall>k. map_of us' k =
               (if is_plain H ?v \<and> k \<in> set (own_keys H ?v) then Some (get_prop H ?v k) else None)"
      by blast
    let ?H2 = "H[u := JObject us', a := JObject ps2]"
    have a2: "a < length ?H2" "?H2 ! a = JObject ps2" using a by simp_all
    \<comment> \<open>the keys after \<open>useCharge\<close>\<close>
    have np3: "\<forall>k \<in> set post. \<not> is_plain ?H2 (get_prop ?H2 (JRef a) k)"
    proof
      fix k assume k: "k \<in> set post"
      with upost disj have ne: "k \<noteq> ''useCharge''" and kp: "k \<notin> set pre" by auto
      have "map_of ps2 k = map_of ?dps k"
        unfolding mp2 mp1 using ne kp by simp
      then show "\<not> is_plain ?H2 (get_prop ?H2 (JRef a) k)"
        unfolding get_prop_defaults_cell[OF a2] using default_prop_not_plain[OF ne, of ?H2 "JRef u"]
        by simp
    qed
    from merge_keys_flat[OF a2 oa dpost np3, of ?M True] obtain ps3 where
      m3: "merge_keys ?M True ?H2 a ?other post = Inr (?H2[a := JObject ps3])"
      and mp3: "map_of ps3 = (\<lambda>k. if k \<in> set post then Some (get_prop ?H2 ?other k) else map_of ps2 k)"
      by blast
    have g2: "get_prop ?H2 ?other k = get_prop H ?other k" for k
      using bu ba by simp
    have ks': "?ks = pre @ [''useCharge''] @ post" using ks by simp
    have "merge_keys ?M True H a ?other ?ks = Inr (?H2[a := JObject ps3])"
      unfolding ks' by (simp only: merge_keys_append m1 m2 m3 sum.case)
    moreover have "?H2[a := JObject ps3] = H[u := JObject us', a := JObject ps3]"
      by simp
    ultimately have 1: "mergeObject (Suc (Suc d)) True H (JRef a) ?other = Inr (H[u := JObject us', a := JObject ps3])"
      unfolding top by (simp only:)
    have 2: "\<forall>k. map_of ps3 k =
        (if k \<in> set ?ks \<and> \<not> (k = ''useCharge'' \<and> is_plain H (get_prop H ?other k))
         then Some (get_prop H ?other k) else map_of ?dps k)"
      unfolding mp3 mp2 mp1 g2 ks using upre upost by auto
    have 3: "\<forall>k. map_of us' k =
        (if ''useCharge'' \<in> set ?ks \<and> is_plain H ?v \<and> k \<in> set (own_keys H ?v)
         then Some (get_prop H ?v k) else None)"
      using mu True by simp
    from 1 2 3 show ?thesis by blast
  qed
qed

lemma val_in_prop:
  assumes "list_all (\<lambda>p. val_in n (snd p)) ps" and "map_of ps k = Some (JRef c)"
  shows "c < n"
proof -
  from assms(2) have "(k, JRef c) \<in> set ps" by (rule map_of_SomeD)
  with assms(1) show ?thesis by (auto simp: list_all_iff)
qed

lemma closed_prop_ref:
  assumes "heap_closed h" and "b < length h" and "get_prop h (JRef b) k = JRef c"
  shows "c < length h"
proof -
  from assms(1,2) have cc: "cell_closed (length h) (h ! b)"
    by (simp add: heap_closed_def list_all_length)
  show ?thesis
  proof (cases "h ! b")
    case (JArray xs)
    with assms(2,3) show ?thesis by (simp split: if_splits)
  next
    case (JObject ps)
    with assms(2,3) have "map_of ps k = Some (JRef c)" by (simp split: option.splits)
    with cc JObject show ?thesis by (auto intro: val_in_prop)
  qed
qed

lemma default_prop_indep:
  "k \<noteq> ''useCharge'' \<Longrightarrow> map_of (defaultParams_props x) k = map_of (defaultParams_props y) k"
  by (simp add: defaultParams_props_def)

lemma new_QuickRoll_result:
  assumes "duplicate d h defaultParams = Inr (h1, dup)"
    and "(if truthy prms then (h1, prms) else alloc h1 (JObject [])) = (h2, other)"
    and "mergeObject d True h2 dup other = Inr h3"
  shows "\<exists>q. new_QuickRoll d resolve defaultParams h origin prms flds = Inr (h3, q) \<and>
           params q = dup \<and> currentId q = - 1 \<and> templates q = [] \<and> \<not> processed q \<and>
           qr_fields q = (case flds of None \<Rightarrow> [] | Some fs \<Rightarrow> fs)"
  using assms
  by (auto simp: new_QuickRoll_def Let_def set_item_def set_actor_def blank_QuickRoll_def
           split: prod.splits simp del: mergeObject.simps)

lemma absent_key_undefined:
  assumes "is_plain h v" and "k \<notin> set (own_keys h v)"
  shows "get_prop h v k = JUndefined"
proof -
  from assms(1) obtain c ps where v: "v = JRef c" "c < length h" "h ! c = JObject ps"
    by (auto dest!: is_plainD)
  with assms(2) have "k \<notin> fst ` set ps" by simp
  then have "map_of ps k = None" by (simp add: map_of_eq_None_iff)
  with v show ?thesis by simp
qed

lemma is_plain_append:
  "is_object h v \<or> (\<forall>a. v \<noteq> JRef a) \<Longrightarrow> is_plain (h @ ext) v = is_plain h v"
  by (cases v) (auto simp: nth_append)

lemma falsy_no_keys: "\<not> truthy v \<Longrightarrow> own_keys h v = []"
  by (cases v) auto

lemma defaults_at_prefix: "defaults_at h dp du \<Longrightarrow> defaults_at (h @ ext) dp du"
  by (auto simp: defaults_at_def nth_append)

subsection \<open>The example card is what the constructor builds\<close>

lemma example_card_constructed:
  "new_QuickRoll 2 no_origin (JRef 1) example_heap0 JUndefined JUndefined (Some [JRef 3, JRef 6]) =
     Inr (example_heap, example_card)"
  by (simp add: new_QuickRoll_def duplicate_def no_origin_def example_heap_def example_heap0_def
      example_card_def defaultParams_props_def blank_QuickRoll_def alloc_def numeral_2_eq_2
      nth_append js_or_def)

subsection \<open>The defaults are left alone\<close>

lemmas params_defs = params_heap_def example_heap0_def defaultParams_props_def

lemma params_heap_length: "length params_heap = 9"
  by (simp add: params_defs)

lemma params_heap_defaults: "defaults_at params_heap 1 0"
  by (simp add: defaults_at_def params_defs)

lemma params_heap_closed: "heap_closed params_heap"
  by (simp add: heap_closed_def params_defs)

lemma params_heap_plain: "is_plain params_heap (JRef 8)"
  by (simp add: params_defs)

text \<open>
  Claim C9: constructing a card never mutates the record of default parameters. When the
  record of defaults is the module's (an object whose charge map is an empty object), the heap
  holds no dangling reference, and the caller's parameters are absent (falsy) or a plain object,
  the constructor returns; every cell of the heap before the call, the record of defaults
  among them, is the same after the call; the parameter bag of the card is a new object, which
  has the caller's value at every key the caller overrides and the default value at every
  other key; the charge map of the bag is a new object too, an empty one into which the
  caller's charge map, if it is a plain object, has been merged.
\<close>

theorem new_QuickRoll_keeps_defaults:
  assumes da: "defaults_at h dp du" and hc: "heap_closed h"
    and pr: "\<not> truthy prms \<or> is_plain h prms"
  shows "\<exists>h' q. new_QuickRoll (Suc (Suc d)) resolve (JRef dp) h origin prms flds = Inr (h', q) \<and>
           take (length h) h' = h \<and> defaults_at h' dp du \<and>
           params q = JRef (Suc (length h)) \<and>
           (\<forall>k. get_prop h' (params q) k =
                  (if overrides h prms k then get_prop h prms k
                   else if k = ''useCharge'' then JRef (length h)
                   else get_prop h (JRef dp) k)) \<and>
           (\<forall>k. get_prop h' (JRef (length h)) k =
                  (if ''useCharge'' \<in> set (own_keys h prms) \<and>
                      is_plain h (get_prop h prms ''useCharge'')
                   then get_prop h (get_prop h prms ''useCharge'') k
                   else JUndefined))"
proof -
  let ?u = "length h"
  let ?a = "Suc (length h)"
  let ?dps = "defaultParams_props (JRef ?u)"
  let ?H1 = "h @ [JObject [], JObject ?dps]"
  from da have dp: "dp < length h" and du: "du < length h"
    and dpc: "h ! dp = JObject (defaultParams_props (JRef du))" and duc: "h ! du = JObject []"
    by (simp_all add: defaults_at_def)
  have dup: "duplicate (Suc (Suc d)) h (JRef dp) = Inr (?H1, JRef ?a)"
    using dp du dpc duc by (rule duplicate_defaults)
  have gdp: "get_prop h (JRef dp) k =
               (case map_of ?dps k of Some v \<Rightarrow> v | None \<Rightarrow> JUndefined)"
    if "k \<noteq> ''useCharge''" for k
    using dp dpc default_prop_indep[OF that, of "JRef du" "JRef ?u"] by simp
  have "\<exists>h2 other us' ps'.
          (if truthy prms then (?H1, prms) else alloc ?H1 (JObject [])) = (h2, other) \<and>
          mergeObject (Suc (Suc d)) True h2 (JRef ?a) other = Inr (h @ [JObject us', JObject ps'] @ drop (length ?H1) h2) \<and>
          (\<forall>k. map_of ps' k =
             (if overrides h prms k then Some (get_prop h prms k) else map_of ?dps k)) \<and>
          (\<forall>k. map_of us' k =
             (if ''useCharge'' \<in> set (own_keys h prms) \<and> is_plain h (get_prop h prms ''useCharge'') \<and>
                 k \<in> set (own_keys h (get_prop h prms ''useCharge''))
              then Some (get_prop h (get_prop h prms ''useCharge'') k) else None))"
  proof (cases "truthy prms")
    case False
    let ?h2 = "?H1 @ [JObject []]"
    have al: "(if truthy prms then (?H1, prms) else alloc ?H1 (JObject [])) = (?h2, JRef (length ?H1))"
      using False by (simp add: alloc_def)
    have m: "mergeObject (Suc (Suc d)) True ?h2 (JRef ?a) (JRef (length ?H1)) =
               Inr (h @ [JObject [], JObject ?dps] @ drop (length ?H1) ?h2)"
      by (simp add: nth_append)
    have nk: "own_keys h prms = []" using False by (rule falsy_no_keys)
    have 1: "\<forall>k. map_of ?dps k =
             (if overrides h prms k then Some (get_prop h prms k) else map_of ?dps k)"
      by (simp add: overrides_def nk)
    have 2: "\<forall>k. map_of [] k =
             (if ''useCharge'' \<in> set (own_keys h prms) \<and> is_plain h (get_prop h prms ''useCharge'') \<and>
                 k \<in> set (own_keys h (get_prop h prms ''useCharge''))
              then Some (get_prop h (get_prop h prms ''useCharge'') k) else None)"
      by (simp add: nk)
    from al m 1 2 show ?thesis by blast
  next
    case True
    with pr have pl: "is_plain h prms" by simp
    then obtain b ps where b: "prms = JRef b" "b < length h" "h ! b = JObject ps"
      by (auto dest!: is_plainD)
    have al: "(if truthy prms then (?H1, prms) else alloc ?H1 (JObject [])) = (?H1, JRef b)"
      using True b by simp
    have rd: "get_prop ?H1 (JRef b) k = get_prop h (JRef b) k" for k
      using b by (simp add: nth_append)
    have ok: "own_keys ?H1 (JRef b) = own_keys h (JRef b)"
      using b by (simp add: nth_append)
    let ?v = "get_prop h (JRef b) ''useCharge''"
    have vok: "is_object h ?v \<or> (\<forall>x. ?v \<noteq> JRef x)"
    proof (cases ?v)
      case (JRef c)
      from closed_prop_ref[OF hc b(2) JRef] JRef show ?thesis
        by (simp del: get_prop.simps)
    qed (simp_all del: get_prop.simps)
    have vU: "\<forall>c. get_prop ?H1 (JRef b) ''useCharge'' = JRef c \<longrightarrow> c \<noteq> ?u \<and> c \<noteq> ?a"
    proof (intro allI impI)
      fix c assume "get_prop ?H1 (JRef b) ''useCharge'' = JRef c"
      then have "?v = JRef c" unfolding rd .
      from closed_prop_ref[OF hc b(2) this] show "c \<noteq> ?u \<and> c \<noteq> ?a" by simp
    qed
    have c1: "?u < length ?H1" "?H1 ! ?u = JObject []" "?a < length ?H1"
      "?H1 ! ?a = JObject ?dps" "?u \<noteq> ?a" "b < length ?H1" "b \<noteq> ?u" "b \<noteq> ?a"
      "is_plain ?H1 (JRef b)"
      using b by (simp_all add: nth_append)
    from merge_into_defaults[OF c1 vU, of d] obtain us' ps' where
      m: "mergeObject (Suc (Suc d)) True ?H1 (JRef ?a) (JRef b) =
            Inr (?H1[?u := JObject us', ?a := JObject ps'])"
      and mp: "\<forall>k. map_of ps' k =
        (if k \<in> set (own_keys ?H1 (JRef b)) \<and>
            \<not> (k = ''useCharge'' \<and> is_plain ?H1 (get_prop ?H1 (JRef b) k))
         then Some (get_prop ?H1 (JRef b) k)
         else map_of ?dps k)"
      and mu: "\<forall>k. map_of us' k =
        (if ''useCharge'' \<in> set (own_keys ?H1 (JRef b)) \<and>
            is_plain ?H1 (get_prop ?H1 (JRef b) ''useCharge'') \<and>
            k \<in> set (own_keys ?H1 (get_prop ?H1 (JRef b) ''useCharge''))
         then Some (get_prop ?H1 (get_prop ?H1 (JRef b) ''useCharge'') k)
         else None)"
      by blast
    have hp: "?H1[?u := JObject us', ?a := JObject ps'] =
                h @ [JObject us', JObject ps'] @ drop (length ?H1) ?H1"
      by (simp add: list_update_append)
    have ipl: "is_plain ?H1 ?v = is_plain h ?v" using vok by (rule is_plain_append)
    have okv: "own_keys ?H1 ?v = own_keys h ?v" using vok by (rule own_keys_append)
    have gpv: "get_prop ?H1 ?v k = get_prop h ?v k" for k using vok by (rule get_prop_append)
    have 1: "\<forall>k. map_of ps' k =
             (if overrides h prms k then Some (get_prop h prms k) else map_of ?dps k)"
      using mp unfolding rd ok overrides_def b(1)
      by (auto simp: ipl simp del: get_prop.simps own_keys.simps is_plain.simps)
    have 2: "\<forall>k. map_of us' k =
             (if ''useCharge'' \<in> set (own_keys h prms) \<and> is_plain h (get_prop h prms ''useCharge'') \<and>
                 k \<in> set (own_keys h (get_prop h prms ''useCharge''))
              then Some (get_prop h (get_prop h prms ''useCharge'') k) else None)"
      using mu unfolding rd ok b(1) ipl okv gpv .
    from al m[unfolded hp] 1 2 show ?thesis by blast
  qed
  then obtain h2 other us' ps' where
    al: "(if truthy prms then (?H1, prms) else alloc ?H1 (JObject [])) = (h2, other)"
    and m: "mergeObject (Suc (Suc d)) True h2 (JRef ?a) other =
              Inr (h @ [JObject us', JObject ps'] @ drop (length ?H1) h2)"
    and mp: "\<forall>k. map_of ps' k =
             (if overrides h prms k then Some (get_prop h prms k) else map_of ?dps k)"
    and mu: "\<forall>k. map_of us' k =
             (if ''useCharge'' \<in> set (own_keys h prms) \<and> is_plain h (get_prop h prms ''useCharge'') \<and>
                 k \<in> set (own_keys h (get_prop h prms ''useCharge''))
              then Some (get_prop h (get_prop h prms ''useCharge'') k) else None)"
    by blast
  let ?h' = "h @ [JObject us', JObject ps'] @ drop (length ?H1) h2"
  from new_QuickRoll_result[OF dup al m, of resolve origin flds] obtain q where
    nq: "new_QuickRoll (Suc (Suc d)) resolve (JRef dp) h origin prms flds = Inr (?h', q)"
    and pq: "params q = JRef ?a" by blast
  have t: "take (length h) ?h' = h" by simp
  have d': "defaults_at ?h' dp du" using da by (rule defaults_at_prefix)
  have g1: "get_prop ?h' (JRef ?a) k =
              (if overrides h prms k then get_prop h prms k
               else if k = ''useCharge'' then JRef (length h)
               else get_prop h (JRef dp) k)" for k
  proof -
    have "get_prop ?h' (JRef ?a) k = (case map_of ps' k of Some v \<Rightarrow> v | None \<Rightarrow> JUndefined)"
      by (simp add: nth_append)
    also have "\<dots> = (if overrides h prms k then get_prop h prms k
               else case map_of ?dps k of Some v \<Rightarrow> v | None \<Rightarrow> JUndefined)"
      using mp by (simp del: get_prop.simps)
    also have "\<dots> = (if overrides h prms k then get_prop h prms k
               else if k = ''useCharge'' then JRef (length h)
               else get_prop h (JRef dp) k)"
      using gdp[of k] by (simp add: default_useCharge del: get_prop.simps)
    finally show ?thesis .
  qed
  have g2: "get_prop ?h' (JRef ?u) k =
                  (if ''useCharge'' \<in> set (own_keys h prms) \<and>
                      is_plain h (get_prop h prms ''useCharge'')
                   then get_prop h (get_prop h prms ''useCharge'') k
                   else JUndefined)" for k
  proof -
    have "get_prop ?h' (JRef ?u) k = (case map_of us' k of Some v \<Rightarrow> v | None \<Rightarrow> JUndefined)"
      by (simp add: nth_append)
    also have "\<dots> = (if ''useCharge'' \<in> set (own_keys h prms) \<and>
                      is_plain h (get_prop h prms ''useCharge'')
                   then get_prop h (get_prop h prms ''useCharge'') k
                   else JUndefined)"
      using mu absent_key_undefined[of h "get_prop h prms ''useCharge''" k]
      by (auto simp del: get_prop.simps own_keys.simps is_plain.simps)
    finally show ?thesis .
  qed
  from nq t d' pq g1 g2 show ?thesis
    by (intro exI[of _ ?h'] exI[of _ q]) (simp del: get_prop.simps)
qed

theorem new_QuickRoll_keeps_defaults_witness:
  "defaults_at params_heap 1 0 \<and> heap_closed params_heap \<and> is_plain params_heap (JRef 8) \<and>
   (\<exists>h' q. new_QuickRoll 2 no_origin (JRef 1) params_heap JUndefined (JRef 8) None = Inr (h', q) \<and>
      take 9 h' = params_heap \<and> defaults_at h' 1 0 \<and> params q = JRef 10 \<and>
      get_prop h' (params q) ''slotLevel'' = JNum 3 \<and>
      get_prop h' (params q) ''consume'' = JBool True \<and>
      get_prop h' (params q) ''useCharge'' = JRef 9 \<and>
      get_prop h' (JRef 9) ''value'' = JBool True)"
proof -
  note da = params_heap_defaults and hc = params_heap_closed and pl = params_heap_plain
  from new_QuickRoll_keeps_defaults[OF da hc disjI2[OF pl], of 0 no_origin JUndefined None]
  obtain h' q where
    nq: "new_QuickRoll (Suc (Suc 0)) no_origin (JRef 1) params_heap JUndefined (JRef 8) None = Inr (h', q)"
    and t: "take (length params_heap) h' = params_heap"
    and d: "defaults_at h' 1 0"
    and p: "params q = JRef (Suc (length params_heap))"
    and g: "\<And>k. get_prop h' (params q) k =
                  (if overrides params_heap (JRef 8) k then get_prop params_heap (JRef 8) k
                   else if k = ''useCharge'' then JRef (length params_heap)
                   else get_prop params_heap (JRef 1) k)"
    and u: "\<And>k. get_prop h' (JRef (length params_heap)) k =
                  (if ''useCharge'' \<in> set (own_keys params_heap (JRef 8)) \<and>
                      is_plain params_heap (get_prop params_heap (JRef 8) ''useCharge'')
                   then get_prop params_heap (get_prop params_heap (JRef 8) ''useCharge'') k
                   else JUndefined)"
    by blast
  have 1: "new_QuickRoll 2 no_origin (JRef 1) params_heap JUndefined (JRef 8) None = Inr (h', q)"
    using nq by (simp only: numeral_2_eq_2)
  have 2: "take 9 h' = params_heap" using t by (simp only: params_heap_length)
  have 3: "params q = JRef 10" using p by (simp add: params_heap_length)
  have 4: "get_prop h' (params q) ''slotLevel'' = JNum 3"
    unfolding g by (simp add: overrides_def params_defs)
  have 5: "get_prop h' (params q) ''consume'' = JBool True"
    unfolding g by (simp add: overrides_def params_defs)
  have 6: "get_prop h' (params q) ''useCharge'' = JRef 9"
    unfolding g by (simp add: overrides_def params_defs)
  have "get_prop h' (JRef (length params_heap)) ''value'' = JBool True"
    unfolding u by (simp add: params_defs)
  then have 7: "get_prop h' (JRef 9) ''value'' = JBool True"
    by (simp only: params_heap_length)
  from da hc pl 1 2 d 3 4 5 6 7 show ?thesis by blast
qed

end
